theory Spec2Isabelle
  imports Main "HOL-Library.Monad_Syntax"
begin

section \<open>Token model (my\_token.py)\<close>

text \<open>
  The source text is a Python \<^verbatim>\<open>str\<close>. The model takes it as a \<^typ>\<open>string\<close>, a list of
  8-bit characters, read as the code points below 256; the character classes below are
  Python's \<^verbatim>\<open>str.isspace\<close>, \<^verbatim>\<open>str.isalpha\<close>, \<^verbatim>\<open>str.isalnum\<close> and \<^verbatim>\<open>str.lower\<close> on that range.
\<close>

datatype NameTokenType =
    SELECT | FROM | WHERE | GROUP | ORDER | BY
  | INSERT | INTO | VALUES
  | DELETE
  | CASE | USING | AS | DISTINCT
  | NULL | ASC | DESC | NULLS | FIRST | LAST | EXISTS
  | LEFT | RIGHT | FULL | INNER | OUTER | STRAIGHT | CROSS | NATURAL | JOIN | ON
  | UNION | EXCEPT | INTERSECT
  | IS | NOT | AND | ALL' | ANY' | BETWEEN | IN | LIKE | OR | SOME'
  | NON_KEYWORD

datatype PunctuationTokenType =
    DOT
  | DOUBLE_COLON
  | BIT_NOT
  | LEFT_SHIFT | RIGHT_SHIFT
  | MULTIPLY | DIVIDE | MOD
  | PLUS | MINUS | BIT_AND | BIT_OR | BIT_XOR
  | EQUAL | LESS_THAN | GREATER_THAN | LESS_THAN_OR_EQUAL | GREATER_THAN_OR_EQUAL | NOT_EQUAL
  | SEMICOLON | LEFT_PAREN | RIGHT_PAREN | LEFT_BRACKET | RIGHT_BRACKET | COMMA | NEWLINE
  | UNKNOWN_OPERATOR

datatype SpecialTokenType =
    SINGLE_QUOTE_STRING | DOUBLE_QUOTE_STRING
  | SINGLE_LINE_COMMENT | MULTI_LINE_COMMENT
  | END_OF_STRING

text \<open>The three dictionaries from the matched text to the kind of a token. Each enum member
  is keyed by its value; \<^verbatim>\<open>auto()\<close> of a \<^verbatim>\<open>StrEnum\<close> is the lower-cased member name.\<close>

definition text_to_name_token :: "(string \<times> NameTokenType) list" where
  "text_to_name_token =
    [(''select'', SELECT), (''from'', FROM), (''where'', WHERE), (''group'', GROUP),
     (''order'', ORDER), (''by'', BY), (''insert'', INSERT), (''into'', INTO),
     (''values'', VALUES), (''delete'', DELETE), (''case'', CASE), (''using'', USING),
     (''as'', AS), (''distinct'', DISTINCT), (''null'', NULL), (''asc'', ASC),
     (''desc'', DESC), (''nulls'', NULLS), (''first'', FIRST), (''last'', LAST),
     (''exists'', EXISTS), (''left'', LEFT), (''right'', RIGHT), (''full'', FULL),
     (''inner'', INNER), (''outer'', OUTER), (''straight'', STRAIGHT), (''cross'', CROSS),
     (''natural'', NATURAL), (''join'', JOIN), (''on'', ON), (''union'', UNION),
     (''except'', EXCEPT), (''intersect'', INTERSECT), (''is'', IS), (''not'', NOT),
     (''and'', AND), (''all'', ALL'), (''any'', ANY'), (''between'', BETWEEN), (''in'', IN),
     (''like'', LIKE), (''or'', OR), (''some'', SOME'), ('' name'', NON_KEYWORD)]"

definition text_to_punctuation_token :: "(string \<times> PunctuationTokenType) list" where
  "text_to_punctuation_token =
    [(''.'', DOT), (''::'', DOUBLE_COLON), (''~'', BIT_NOT), (''<<'', LEFT_SHIFT),
     (''>>'', RIGHT_SHIFT), (''*'', MULTIPLY), (''/'', DIVIDE), (''%'', MOD), (''+'', PLUS),
     (''-'', MINUS), (''&'', BIT_AND), (''|'', BIT_OR), (''^'', BIT_XOR), (''='', EQUAL),
     (''<'', LESS_THAN), (''>'', GREATER_THAN), (''<='', LESS_THAN_OR_EQUAL),
     (''>='', GREATER_THAN_OR_EQUAL), (''!='', NOT_EQUAL), ('';'', SEMICOLON),
     (''('', LEFT_PAREN), ('')'', RIGHT_PAREN), (''['', LEFT_BRACKET), ('']'', RIGHT_BRACKET),
     ('','', COMMA), ([CHR 0x0A], NEWLINE), ('' unknown'', UNKNOWN_OPERATOR)]"

definition text_to_non_operators :: "(char \<times> PunctuationTokenType) list" where
  "text_to_non_operators =
    [(CHR '';'', SEMICOLON), (CHR ''('', LEFT_PAREN), (CHR '')'', RIGHT_PAREN),
     (CHR ''['', LEFT_BRACKET), (CHR '']'', RIGHT_BRACKET), (CHR '','', COMMA),
     (CHR 0x0A, NEWLINE)]"

text \<open>\<^verbatim>\<open>operator_to_precedence\<close> is keyed by both enums; their values never coincide, so the
  key is the disjoint sum of the two.\<close>

type_synonym operator_kind = "PunctuationTokenType + NameTokenType"

definition operator_to_precedence :: "(operator_kind \<times> int) list" where
  "operator_to_precedence =
    [(Inl DOT, 1), (Inl DOUBLE_COLON, 2),
     (Inl LEFT_SHIFT, 4), (Inl RIGHT_SHIFT, 4),
     (Inl MULTIPLY, 5), (Inl DIVIDE, 5), (Inl MOD, 5),
     (Inl PLUS, 6), (Inl MINUS, 6), (Inl BIT_AND, 6), (Inl BIT_OR, 6), (Inl BIT_XOR, 6),
     (Inl EQUAL, 7), (Inl LESS_THAN, 7), (Inl GREATER_THAN, 7), (Inl LESS_THAN_OR_EQUAL, 7),
     (Inl GREATER_THAN_OR_EQUAL, 7), (Inl NOT_EQUAL, 7),
     (Inr IS, 7), (Inr IN, 7), (Inr LIKE, 7),
     (Inr AND, 9), (Inr OR, 10),
     (Inl COMMA, 100)]"

definition comma_precedence :: int where
  "comma_precedence = the (map_of operator_to_precedence (Inl COMMA))"

text \<open>The token classes. \<open>start\<close> and \<open>tlength\<close> are the fields \<^verbatim>\<open>start\<close> and \<^verbatim>\<open>length\<close> of the
  base class; \<open>has_end_sequence\<close> defaults to true.\<close>

datatype Token =
    NameToken (start: int) (tlength: int) NameTokenType
  | NumberToken (start: int) (tlength: int)
  | PunctuationToken (start: int) (tlength: int) PunctuationTokenType
  | SpecialToken (start: int) (tlength: int) SpecialTokenType (has_end_sequence: bool)

section \<open>Tokenizer (tokenizer.py)\<close>

definition isspace :: "char \<Rightarrow> bool" where
  "isspace c = (let n = (of_char c :: nat) in
     (9 \<le> n \<and> n \<le> 13) \<or> (28 \<le> n \<and> n \<le> 32) \<or> n = 133 \<or> n = 160)"

definition isalpha :: "char \<Rightarrow> bool" where
  "isalpha c = (let n = (of_char c :: nat) in
     (65 \<le> n \<and> n \<le> 90) \<or> (97 \<le> n \<and> n \<le> 122) \<or> n = 170 \<or> n = 181 \<or> n = 186
     \<or> (192 \<le> n \<and> n \<le> 214) \<or> (216 \<le> n \<and> n \<le> 246) \<or> 248 \<le> n)"

definition isalnum :: "char \<Rightarrow> bool" where
  "isalnum c = (let n = (of_char c :: nat) in
     isalpha c \<or> (48 \<le> n \<and> n \<le> 57) \<or> n = 178 \<or> n = 179 \<or> n = 185
     \<or> (188 \<le> n \<and> n \<le> 190))"

definition lower :: "char \<Rightarrow> char" where
  "lower c = (let n = (of_char c :: nat) in
     if (65 \<le> n \<and> n \<le> 90) \<or> (192 \<le> n \<and> n \<le> 222 \<and> n \<noteq> 215) then char_of (n + 32) else c)"

text \<open>\<^verbatim>\<open>"0" <= c <= "9"\<close>\<close>

definition is_ascii_digit :: "char \<Rightarrow> bool" where
  "is_ascii_digit c = ((48::nat) \<le> of_char c \<and> (of_char c :: nat) \<le> 57)"

text \<open>The character class \<^verbatim>\<open>[!@#^&*-+=|<>/%.:]\<close> of the operator pattern. Inside a class
  \<^verbatim>\<open>*-+\<close> is the range from \<^verbatim>\<open>*\<close> to \<^verbatim>\<open>+\<close>.\<close>

definition operator_char :: "char \<Rightarrow> bool" where
  "operator_char c =
    (c = CHR ''!'' \<or> c = CHR ''@'' \<or> c = CHR ''#'' \<or> c = CHR ''^'' \<or> c = CHR ''&''
     \<or> ((of_char (CHR ''*'') :: nat) \<le> of_char c \<and> (of_char c :: nat) \<le> of_char (CHR ''+''))
     \<or> c = CHR ''='' \<or> c = CHR ''|'' \<or> c = CHR ''<'' \<or> c = CHR ''>'' \<or> c = CHR ''/''
     \<or> c = CHR ''%'' \<or> c = CHR ''.'' \<or> c = CHR '':'')"

text \<open>\<^verbatim>\<open>while position < len(text) and p(text[position]): position += 1\<close>, the loop that
  skips white space and that extends a name, a number and (as the pattern \<^verbatim>\<open>[...]+\<close>) an
  operator.\<close>

function scan_while :: "(char \<Rightarrow> bool) \<Rightarrow> string \<Rightarrow> nat \<Rightarrow> nat" where
  "scan_while p txt position =
    (if position < length txt \<and> p (txt ! position) then scan_while p txt (position + 1)
     else position)"
  by pat_completeness auto
termination
  by (relation "measure (\<lambda>(p, txt, position). length txt - position)") auto

text \<open>\<^verbatim>\<open>re.compile(r'(\\"|[^"])*"').match(text, position)\<close> and its single-quote twin, as the
  backtracking matcher runs them: each round of the star first tries an escaped quote,
  then any character but the quote, and when what follows fails either way it leaves the
  star and asks for the closing quote. The result is \<^verbatim>\<open>m.end()\<close>.\<close>

function match_quoted :: "char \<Rightarrow> string \<Rightarrow> nat \<Rightarrow> nat option" where
  "match_quoted q txt i =
    (if length txt \<le> i then None
     else
       (case (if txt ! i = CHR 0x5C \<and> i + 1 < length txt \<and> txt ! (i + 1) = q
              then match_quoted q txt (i + 2) else None) of
          Some e \<Rightarrow> Some e
        | None \<Rightarrow>
           (case (if txt ! i \<noteq> q then match_quoted q txt (i + 1) else None) of
              Some e \<Rightarrow> Some e
            | None \<Rightarrow> if txt ! i = q then Some (i + 1) else None)))"
  by pat_completeness auto
termination
  by (relation "measure (\<lambda>(q, txt, i). length txt - i)") auto

text \<open>\<^verbatim>\<open>re.compile(r"\n").search(text, position)\<close>; the result is \<^verbatim>\<open>m.start()\<close>.\<close>

function search_newline :: "string \<Rightarrow> nat \<Rightarrow> nat option" where
  "search_newline txt i =
    (if length txt \<le> i then None
     else if txt ! i = CHR 0x0A then Some i
     else search_newline txt (i + 1))"
  by pat_completeness auto
termination
  by (relation "measure (\<lambda>(txt, i). length txt - i)") auto

text \<open>\<^verbatim>\<open>re.compile(r"[\s\S]*?\*/").match(text, position)\<close>; the result is \<^verbatim>\<open>m.end()\<close>.\<close>

function match_multiline_comment :: "string \<Rightarrow> nat \<Rightarrow> nat option" where
  "match_multiline_comment txt i =
    (if length txt \<le> i + 1 then None
     else if txt ! i = CHR ''*'' \<and> txt ! (i + 1) = CHR ''/'' then Some (i + 2)
     else match_multiline_comment txt (i + 1))"
  by pat_completeness auto
termination
  by (relation "measure (\<lambda>(txt, i). length txt - i)") auto

text \<open>\<^verbatim>\<open>text[a:b]\<close> for \<open>0 \<le> a\<close>, \<open>0 \<le> b\<close>.\<close>

definition slice :: "string \<Rightarrow> nat \<Rightarrow> nat \<Rightarrow> string" where
  "slice txt a b = take (b - a) (drop a txt)"

text \<open>\<^verbatim>\<open>Tokenizer._search_next\<close>: the next token from \<open>position\<close> and the position after it.\<close>

definition search_next :: "string \<Rightarrow> nat \<Rightarrow> Token \<times> nat" where
  "search_next txt position0 =
    (let position = scan_while (\<lambda>c. isspace c \<and> c \<noteq> CHR 0x0A) txt position0 in
     if length txt \<le> position then
       (SpecialToken (int position) 0 END_OF_STRING True, position)
     else
      let start = position in
      if isalpha (txt ! position) then
        (let position = scan_while (\<lambda>c. isalnum c \<or> c = CHR ''_'') txt (position + 1);
             name_token_type =
               (case map_of text_to_name_token (map lower (slice txt start position)) of
                  Some t \<Rightarrow> t | None \<Rightarrow> NON_KEYWORD)
         in (NameToken (int start) (int position - int start) name_token_type, position))
      else if is_ascii_digit (txt ! position) then
        (let position = scan_while (\<lambda>c. is_ascii_digit c \<or> c = CHR ''.'') txt (position + 1)
         in (NumberToken (int start) (int position - int start), position))
      else if txt ! position = CHR 0x22 then
        (case match_quoted (CHR 0x22) txt (position + 1) of
           None \<Rightarrow>
             (SpecialToken (int start) (int (length txt) - int start) DOUBLE_QUOTE_STRING False,
              length txt)
         | Some m_end \<Rightarrow>
             (SpecialToken (int start) (int m_end - int start) DOUBLE_QUOTE_STRING True, m_end))
      else if txt ! position = CHR 0x27 then
        (case match_quoted (CHR 0x27) txt (position + 1) of
           None \<Rightarrow>
             (SpecialToken (int start) (int (length txt) - int start) SINGLE_QUOTE_STRING False,
              length txt)
         | Some m_end \<Rightarrow>
             (SpecialToken (int start) (int m_end - int start) SINGLE_QUOTE_STRING True, m_end))
      else if position + 1 < length txt \<and> slice txt position (position + 2) = ''--'' then
        (case search_newline txt (position + 2) of
           None \<Rightarrow>
             (SpecialToken (int start) (int (length txt) - int start) SINGLE_LINE_COMMENT True,
              length txt)
         | Some m_start \<Rightarrow>
             (SpecialToken (int start) (int m_start - int start) SINGLE_LINE_COMMENT True,
              m_start))
      else if position + 1 < length txt \<and> slice txt position (position + 2) = ''/*'' then
        (case match_multiline_comment txt (position + 2) of
           None \<Rightarrow>
             (SpecialToken (int start) (int (length txt) - int start) MULTI_LINE_COMMENT False,
              length txt)
         | Some m_end \<Rightarrow>
             (SpecialToken (int start) (int m_end - int start) MULTI_LINE_COMMENT True, m_end))
      else
        (case map_of text_to_non_operators (txt ! position) of
           Some non_operator_token_type \<Rightarrow>
             (PunctuationToken (int start) (int (position + 1) - int start)
                non_operator_token_type, position + 1)
         | None \<Rightarrow>
            (let m_end = scan_while operator_char txt position in
             if m_end = position then
               (PunctuationToken (int start) (int (position + 1) - int start) UNKNOWN_OPERATOR,
                position + 1)
             else
               (PunctuationToken (int start) (int m_end - int start)
                  (case map_of text_to_punctuation_token (slice txt start m_end) of
                     Some t \<Rightarrow> t | None \<Rightarrow> UNKNOWN_OPERATOR),
                m_end))))"

text \<open>The \<^verbatim>\<open>Tokenizer\<close> object. \<open>tk_text\<close> is its field \<^verbatim>\<open>text\<close>. Positions start at 0 and only
  grow, so they are natural numbers; \<^verbatim>\<open>end_idx_of_last_consumed_token\<close> starts at -1.\<close>

record Tokenizer =
  tk_text :: string
  start_position :: nat
  peek_queue :: "Token list"
  end_idx_of_last_consumed_token :: int

definition Tokenizer_init :: "string \<Rightarrow> nat \<Rightarrow> Tokenizer" where
  "Tokenizer_init txt start_pos =
    \<lparr>tk_text = txt, start_position = start_pos, peek_queue = [],
     end_idx_of_last_consumed_token = -1\<rparr>"

definition consume :: "Tokenizer \<Rightarrow> Token \<times> Tokenizer" where
  "consume tk =
    (case peek_queue tk of
       ret # rest \<Rightarrow>
         (ret, tk\<lparr>peek_queue := rest, start_position := nat (start ret + tlength ret),
                  end_idx_of_last_consumed_token := start ret + tlength ret\<rparr>)
     | [] \<Rightarrow>
         (let (ret, position) = search_next (tk_text tk) (start_position tk)
          in (ret, tk\<lparr>start_position := position,
                       end_idx_of_last_consumed_token := start ret + tlength ret\<rparr>)))"

text \<open>\<^verbatim>\<open>while len(self.peek_queue) < k\<close> of \<^verbatim>\<open>peek\<close>.\<close>

function peek_loop :: "string \<Rightarrow> nat \<Rightarrow> Token list \<Rightarrow> nat \<Rightarrow> Token list" where
  "peek_loop txt k queue position =
    (if length queue < k then
       (let (token, position) = search_next txt position
        in peek_loop txt k (queue @ [token]) position)
     else queue)"
  by pat_completeness auto
termination
  by (relation "measure (\<lambda>(txt, k, queue, position). k - length queue)") auto

text \<open>\<^verbatim>\<open>peek(k)\<close>; the parser calls it with \<open>k = 1\<close> and \<open>k = 2\<close> only, so the assertion
  \<^verbatim>\<open>k > 0\<close> holds at every call.\<close>

definition peek :: "nat \<Rightarrow> Tokenizer \<Rightarrow> Token \<times> Tokenizer" where
  "peek k tk =
    (let position =
           (if peek_queue tk \<noteq> []
            then nat (start (last (peek_queue tk)) + tlength (last (peek_queue tk)))
            else start_position tk);
         queue = peek_loop (tk_text tk) k (peek_queue tk) position
     in (queue ! (k - 1), tk\<lparr>peek_queue := queue\<rparr>))"

section \<open>AST model (my\_ast.py)\<close>

datatype Expression =
    ValueExpression Token
  | ParenExpression Token Expression "Token option"
  | BinaryExpression Expression Token Expression
  | PlaceholderExpression string

datatype SelectField = SelectField (sf_expression: Expression) (sf_alias_name: "Token option")

datatype SelectClause = SelectClause (select_fields: "SelectField list")

datatype FromField = FromField (table_name: Expression) (ff_alias_name: "Token option")

datatype FromClause = FromClause (from_fields: "FromField list")

datatype WhereClause = WhereClause (where_expression: Expression)

record UnknownSequence =
  us_start :: int
  us_length :: int
  first_token :: Token

record Statement =
  st_start :: int
  st_length :: int
  selects :: "SelectClause list"
  froms :: "FromClause list"
  wheres :: "WhereClause list"
  comments :: "Token list"
  unknowns :: "UnknownSequence list"

definition Statement_init :: "int \<Rightarrow> int \<Rightarrow> Statement" where
  "Statement_init s l =
    \<lparr>st_start = s, st_length = l, selects = [], froms = [], wheres = [], comments = [],
     unknowns = []\<rparr>"

section \<open>Parser (parser.py)\<close>

text \<open>
  The parser's loops and its recursion take fuel: \<open>None\<close> is a run that needed more than it
  was given. A run that ends gives the value or the exception that left the function, and
  the state it left behind (the tokenizer, and where there is one the statement being
  built, both mutated in place by the source).
\<close>

datatype exception = UnknownTokenException | IndexError

type_synonym ('a, 's) result = "((exception + 'a) \<times> 's) option"

text \<open>Sequencing: an exception of the first part leaves the whole.\<close>

definition then_do :: "('a, 's) result \<Rightarrow> ('a \<Rightarrow> 's \<Rightarrow> ('b, 's) result) \<Rightarrow> ('b, 's) result" where
  "then_do m f =
    (case m of
       None \<Rightarrow> None
     | Some (Inl e, s) \<Rightarrow> Some (Inl e, s)
     | Some (Inr a, s) \<Rightarrow> f a s)"

lemma then_do_cong [fundef_cong]:
  "m = m' \<Longrightarrow> (\<And>a s. m' = Some (Inr a, s) \<Longrightarrow> f a s = f' a s) \<Longrightarrow> then_do m f = then_do m' f'"
  by (auto simp: then_do_def split: option.splits sum.splits)

definition is_name :: "NameTokenType \<Rightarrow> Token \<Rightarrow> bool" where
  "is_name ty token = (case token of NameToken _ _ ty' \<Rightarrow> ty' = ty | _ \<Rightarrow> False)"

definition is_punctuation :: "PunctuationTokenType \<Rightarrow> Token \<Rightarrow> bool" where
  "is_punctuation ty token = (case token of PunctuationToken _ _ ty' \<Rightarrow> ty' = ty | _ \<Rightarrow> False)"

definition is_special :: "SpecialTokenType \<Rightarrow> Token \<Rightarrow> bool" where
  "is_special ty token = (case token of SpecialToken _ _ ty' _ \<Rightarrow> ty' = ty | _ \<Rightarrow> False)"

definition is_comment :: "Token \<Rightarrow> bool" where
  "is_comment token = (is_special SINGLE_LINE_COMMENT token \<or> is_special MULTI_LINE_COMMENT token)"

text \<open>\<^verbatim>\<open>consume_newline_semicolons\<close>\<close>

fun consume_newline_semicolons_loop :: "nat \<Rightarrow> Token \<Rightarrow> Tokenizer \<Rightarrow> (Token, Tokenizer) result" where
  "consume_newline_semicolons_loop 0 token tk = None"
| "consume_newline_semicolons_loop (Suc fuel) token tk =
    (if is_punctuation NEWLINE token \<or> is_punctuation SEMICOLON token then
       (let tk = snd (consume tk); (token, tk) = peek 1 tk
        in consume_newline_semicolons_loop fuel token tk)
     else Some (Inr token, tk))"

definition consume_newline_semicolons :: "nat \<Rightarrow> Tokenizer \<Rightarrow> (Token, Tokenizer) result" where
  "consume_newline_semicolons fuel tk =
    (let (token, tk) = peek 1 tk in consume_newline_semicolons_loop fuel token tk)"

text \<open>\<^verbatim>\<open>get_next_standard_token\<close>: the first \<^verbatim>\<open>if\<close> of the loop body either breaks (two
  newlines ahead) or goes on to the second with the token it has then.\<close>

fun get_next_standard_token_loop ::
  "nat \<Rightarrow> Token \<Rightarrow> Tokenizer \<Rightarrow> Statement \<Rightarrow> (Token, Tokenizer \<times> Statement) result" where
  "get_next_standard_token_loop 0 token tk parent_statement = None"
| "get_next_standard_token_loop (Suc fuel) token tk parent_statement =
    (case (if is_punctuation NEWLINE token then
             (let (token2, tk) = peek 2 tk
              in if is_punctuation NEWLINE token2 then Inl tk
                 else Inr (token2, snd (consume tk)))
           else Inr (token, tk)) of
       Inl tk \<Rightarrow> Some (Inr token, tk, parent_statement)
     | Inr (token, tk) \<Rightarrow>
         if is_comment token then
           (let tk = snd (consume tk);
                parent_statement =
                  parent_statement\<lparr>comments := comments parent_statement @ [token]\<rparr>;
                (token, tk) = peek 1 tk
            in get_next_standard_token_loop fuel token tk parent_statement)
         else Some (Inr token, tk, parent_statement))"

definition get_next_standard_token ::
  "nat \<Rightarrow> Tokenizer \<Rightarrow> Statement \<Rightarrow> (Token, Tokenizer \<times> Statement) result" where
  "get_next_standard_token fuel tk parent_statement =
    (let (token, tk) = peek 1 tk in get_next_standard_token_loop fuel token tk parent_statement)"

text \<open>\<^verbatim>\<open>binop.type\<close> as a key of \<^verbatim>\<open>operator_to_precedence\<close>, for a name or punctuation token.\<close>

definition operator_kind_of :: "Token \<Rightarrow> operator_kind option" where
  "operator_kind_of token =
    (case token of
       NameToken _ _ ty \<Rightarrow> Some (Inr ty)
     | PunctuationToken _ _ ty \<Rightarrow> Some (Inl ty)
     | _ \<Rightarrow> None)"

definition is_placeholder :: "Expression \<Rightarrow> bool" where
  "is_placeholder e = (case e of PlaceholderExpression _ \<Rightarrow> True | _ \<Rightarrow> False)"

text \<open>\<^verbatim>\<open>parse_expression\<close> and \<^verbatim>\<open>parse_non_binary_expression\<close>, each with its \<^verbatim>\<open>while True\<close> loop.
  The body of the \<^verbatim>\<open>try\<close> is \<open>parse_non_binary_expression_loop\<close>; its \<^verbatim>\<open>continue\<close> keeps the
  token it has. The interpreter's limit on nested calls is left out here; section
  \<open>The parser under a recursion limit\<close> below adds it.\<close>

fun parse_expression ::
    "nat \<Rightarrow> int \<Rightarrow> Tokenizer \<Rightarrow> Statement \<Rightarrow> (Expression, Tokenizer \<times> Statement) result"
  and parse_expression_loop ::
    "nat \<Rightarrow> int \<Rightarrow> Expression \<Rightarrow> Tokenizer \<Rightarrow> Statement
      \<Rightarrow> (Expression, Tokenizer \<times> Statement) result"
  and parse_non_binary_expression ::
    "nat \<Rightarrow> Tokenizer \<Rightarrow> Statement \<Rightarrow> (Expression, Tokenizer \<times> Statement) result"
  and parse_non_binary_expression_loop ::
    "nat \<Rightarrow> Token \<Rightarrow> Tokenizer \<Rightarrow> Statement \<Rightarrow> (Expression, Tokenizer \<times> Statement) result"
where
  "parse_expression 0 expression_precedence tk parent_statement = None"
| "parse_expression (Suc fuel) expression_precedence tk parent_statement =
    then_do (parse_non_binary_expression fuel tk parent_statement)
      (\<lambda>expression (tk, parent_statement).
        if is_placeholder expression then Some (Inr expression, tk, parent_statement)
        else parse_expression_loop fuel expression_precedence expression tk parent_statement)"
| "parse_expression_loop 0 expression_precedence expression tk parent_statement = None"
| "parse_expression_loop (Suc fuel) expression_precedence expression tk parent_statement =
    then_do (get_next_standard_token fuel tk parent_statement)
      (\<lambda>binop (tk, parent_statement).
        case operator_kind_of binop of
          None \<Rightarrow> Some (Inr expression, tk, parent_statement)
        | Some kind \<Rightarrow>
            (let binop_precedence =
                   (case map_of operator_to_precedence kind of
                      Some p \<Rightarrow> p | None \<Rightarrow> comma_precedence + 1)
             in if binop_precedence > expression_precedence
                then Some (Inr expression, tk, parent_statement)
                else
                  then_do (parse_expression fuel (binop_precedence - 1) (snd (consume tk))
                             parent_statement)
                    (\<lambda>next_expression (tk, parent_statement).
                      let expression = BinaryExpression expression binop next_expression
                      in if is_placeholder next_expression
                         then Some (Inr expression, tk, parent_statement)
                         else parse_expression_loop fuel expression_precedence expression tk
                                parent_statement)))"
| "parse_non_binary_expression 0 tk parent_statement = None"
| "parse_non_binary_expression (Suc fuel) tk parent_statement =
    then_do (get_next_standard_token fuel tk parent_statement)
      (\<lambda>token (tk, parent_statement).
        case parse_non_binary_expression_loop fuel token tk parent_statement of
          Some (Inl UnknownTokenException, s) \<Rightarrow> Some (Inr (PlaceholderExpression ''1''), s)
        | r \<Rightarrow> r)"
| "parse_non_binary_expression_loop 0 token tk parent_statement = None"
| "parse_non_binary_expression_loop (Suc fuel) token tk parent_statement =
    (case token of
       NameToken _ _ ty \<Rightarrow>
         if ty = NON_KEYWORD
         then Some (Inr (ValueExpression token), snd (consume tk), parent_statement)
         else Some (Inl UnknownTokenException, tk, parent_statement)
     | NumberToken _ _ \<Rightarrow>
         Some (Inr (ValueExpression token), snd (consume tk), parent_statement)
     | PunctuationToken _ _ ty \<Rightarrow>
         if ty = LEFT_PAREN then
           then_do (parse_expression fuel comma_precedence (snd (consume tk)) parent_statement)
             (\<lambda>ret (tk, parent_statement).
               then_do (get_next_standard_token fuel tk parent_statement)
                 (\<lambda>token2 (tk, parent_statement).
                   if is_punctuation RIGHT_PAREN token2
                   then Some (Inr (ParenExpression token ret (Some token2)),
                              snd (consume tk), parent_statement)
                   else Some (Inr (ParenExpression token ret None), tk, parent_statement)))
         else Some (Inl UnknownTokenException, tk, parent_statement)
     | SpecialToken _ _ ty _ \<Rightarrow>
         if ty = SINGLE_QUOTE_STRING
         then Some (Inr (ValueExpression token), snd (consume tk), parent_statement)
         else if ty = DOUBLE_QUOTE_STRING
         then Some (Inr (ValueExpression token), snd (consume tk), parent_statement)
         else if ty = SINGLE_LINE_COMMENT \<or> ty = MULTI_LINE_COMMENT
         then parse_non_binary_expression_loop fuel token (snd (consume tk))
                (parent_statement\<lparr>comments := comments parent_statement @ [token]\<rparr>)
         else Some (Inl UnknownTokenException, tk, parent_statement))"

text \<open>The part of \<^verbatim>\<open>parse_select\<close> and \<^verbatim>\<open>parse_from\<close> after the expression, up to the test for
  a comma: an optional \<^verbatim>\<open>AS\<close>, an optional alias. It gives the alias and the token the
  comma test looks at.\<close>

definition parse_alias ::
  "nat \<Rightarrow> Tokenizer \<Rightarrow> Statement \<Rightarrow> (Token option \<times> Token, Tokenizer \<times> Statement) result" where
  "parse_alias fuel tk parent_statement =
    then_do (get_next_standard_token fuel tk parent_statement)
      (\<lambda>token (tk, parent_statement).
        then_do (if is_name AS token
                 then get_next_standard_token fuel (snd (consume tk)) parent_statement
                 else Some (Inr token, tk, parent_statement))
          (\<lambda>token (tk, parent_statement).
            if is_name NON_KEYWORD token \<or> is_special DOUBLE_QUOTE_STRING token
            then then_do (get_next_standard_token fuel (snd (consume tk)) parent_statement)
                   (\<lambda>token' s. Some (Inr (Some token, token'), s))
            else Some (Inr (None, token), tk, parent_statement)))"

fun parse_select_loop ::
  "nat \<Rightarrow> SelectClause \<Rightarrow> Tokenizer \<Rightarrow> Statement \<Rightarrow> (SelectClause, Tokenizer \<times> Statement) result"
where
  "parse_select_loop 0 ret tk parent_statement = None"
| "parse_select_loop (Suc fuel) ret tk parent_statement =
    then_do (parse_expression fuel (comma_precedence - 1) tk parent_statement)
      (\<lambda>expression (tk, parent_statement).
        then_do (parse_alias fuel tk parent_statement)
          (\<lambda>(alias, token) (tk, parent_statement).
            let ret = SelectClause (select_fields ret @ [SelectField expression alias])
            in if is_punctuation COMMA token
               then parse_select_loop fuel ret (snd (consume tk)) parent_statement
               else Some (Inr ret, tk, parent_statement)))"

definition parse_select ::
  "nat \<Rightarrow> Tokenizer \<Rightarrow> Statement \<Rightarrow> (SelectClause, Tokenizer \<times> Statement) result" where
  "parse_select fuel tk parent_statement =
    parse_select_loop fuel (SelectClause []) (snd (consume tk)) parent_statement"

fun parse_from_loop ::
  "nat \<Rightarrow> FromClause \<Rightarrow> Tokenizer \<Rightarrow> Statement \<Rightarrow> (FromClause, Tokenizer \<times> Statement) result"
where
  "parse_from_loop 0 ret tk parent_statement = None"
| "parse_from_loop (Suc fuel) ret tk parent_statement =
    then_do (parse_expression fuel (the (map_of operator_to_precedence (Inl DOT))) tk
               parent_statement)
      (\<lambda>expression (tk, parent_statement).
        then_do (parse_alias fuel tk parent_statement)
          (\<lambda>(alias, token) (tk, parent_statement).
            let ret = FromClause (from_fields ret @ [FromField expression alias])
            in if is_punctuation COMMA token
               then parse_from_loop fuel ret (snd (consume tk)) parent_statement
               else Some (Inr ret, tk, parent_statement)))"

definition parse_from ::
  "nat \<Rightarrow> Tokenizer \<Rightarrow> Statement \<Rightarrow> (FromClause, Tokenizer \<times> Statement) result" where
  "parse_from fuel tk parent_statement =
    parse_from_loop fuel (FromClause []) (snd (consume tk)) parent_statement"

definition parse_where ::
  "nat \<Rightarrow> Tokenizer \<Rightarrow> Statement \<Rightarrow> (WhereClause, Tokenizer \<times> Statement) result" where
  "parse_where fuel tk parent_statement =
    then_do (parse_expression fuel (comma_precedence - 1) (snd (consume tk)) parent_statement)
      (\<lambda>expression s. Some (Inr (WhereClause expression), s))"

text \<open>The body of the \<^verbatim>\<open>try\<close> of \<^verbatim>\<open>parse_statement\<close>. Its value says whether the loop is left
  (\<^verbatim>\<open>break\<close>).\<close>

definition parse_statement_try ::
  "nat \<Rightarrow> Token \<Rightarrow> Tokenizer \<Rightarrow> Statement \<Rightarrow> (bool, Tokenizer \<times> Statement) result" where
  "parse_statement_try fuel token tk ret =
    (case token of
       NameToken _ _ ty \<Rightarrow>
         if ty = SELECT then
           then_do (parse_select fuel tk ret)
             (\<lambda>clause (tk, ret). Some (Inr False, tk, ret\<lparr>selects := selects ret @ [clause]\<rparr>))
         else if ty = FROM then
           then_do (parse_from fuel tk ret)
             (\<lambda>clause (tk, ret). Some (Inr False, tk, ret\<lparr>froms := froms ret @ [clause]\<rparr>))
         else if ty = WHERE then
           then_do (parse_where fuel tk ret)
             (\<lambda>clause (tk, ret). Some (Inr False, tk, ret\<lparr>wheres := wheres ret @ [clause]\<rparr>))
         else Some (Inl UnknownTokenException, tk, ret)
     | PunctuationToken _ _ ty \<Rightarrow>
         if ty = SEMICOLON then
           Some (Inr True, snd (consume tk),
                 ret\<lparr>st_length := end_idx_of_last_consumed_token tk - st_start ret\<rparr>)
         else if ty = NEWLINE then
           Some (Inr True, snd (consume (snd (consume tk))),
                 ret\<lparr>st_length := end_idx_of_last_consumed_token tk - st_start ret\<rparr>)
         else Some (Inl UnknownTokenException, tk, ret)
     | SpecialToken _ _ ty _ \<Rightarrow>
         if ty = END_OF_STRING then
           Some (Inr True, tk,
                 ret\<lparr>st_length := end_idx_of_last_consumed_token tk - st_start ret\<rparr>)
         else Some (Inl UnknownTokenException, tk, ret)
     | NumberToken _ _ \<Rightarrow> Some (Inl UnknownTokenException, tk, ret))"

text \<open>The \<^verbatim>\<open>while True\<close> of \<^verbatim>\<open>parse_statement\<close> with its \<^verbatim>\<open>except\<close> clause;
  \<^verbatim>\<open>ret.unknowns[-1]\<close> raises \<^verbatim>\<open>IndexError\<close> on an empty list.\<close>

fun parse_statement_loop ::
  "nat \<Rightarrow> bool \<Rightarrow> Tokenizer \<Rightarrow> Statement \<Rightarrow> (Statement, Tokenizer \<times> Statement) result" where
  "parse_statement_loop 0 prev_token_is_known tk ret = None"
| "parse_statement_loop (Suc fuel) prev_token_is_known tk ret =
    then_do (get_next_standard_token fuel tk ret)
      (\<lambda>token (tk, ret).
        case parse_statement_try fuel token tk ret of
          None \<Rightarrow> None
        | Some (Inr True, tk, ret) \<Rightarrow> Some (Inr ret, tk, ret)
        | Some (Inr False, tk, ret) \<Rightarrow> parse_statement_loop fuel True tk ret
        | Some (Inl UnknownTokenException, tk, ret) \<Rightarrow>
            (let tk = snd (consume tk) in
             if prev_token_is_known then
               parse_statement_loop fuel False tk
                 (ret\<lparr>unknowns := unknowns ret @
                    [\<lparr>us_start = start token, us_length = tlength token, first_token = token\<rparr>]\<rparr>)
             else if unknowns ret = [] then Some (Inl IndexError, tk, ret)
             else
               parse_statement_loop fuel False tk
                 (ret\<lparr>unknowns := butlast (unknowns ret) @
                    [(last (unknowns ret))
                       \<lparr>us_length := start token + tlength token - us_start (last (unknowns ret))\<rparr>]\<rparr>))
        | Some (Inl e, s) \<Rightarrow> Some (Inl e, s))"

definition parse_statement :: "nat \<Rightarrow> Tokenizer \<Rightarrow> (Statement, Tokenizer) result" where
  "parse_statement fuel tk =
    (let (token, tk) = peek 1 tk;
         ret = Statement_init (start token) (tlength token)
     in map_option (\<lambda>(r, tk, ret). (r, tk)) (parse_statement_loop fuel True tk ret))"

text \<open>\<^verbatim>\<open>parse_all\<close>\<close>

fun parse_all_loop :: "nat \<Rightarrow> Statement list \<Rightarrow> Tokenizer \<Rightarrow> (Statement list, Tokenizer) result" where
  "parse_all_loop 0 ret tk = None"
| "parse_all_loop (Suc fuel) ret tk =
    then_do (consume_newline_semicolons fuel tk)
      (\<lambda>token tk.
        if is_special END_OF_STRING token then Some (Inr ret, tk)
        else then_do (parse_statement fuel tk)
               (\<lambda>statement tk. parse_all_loop fuel (ret @ [statement]) tk))"

definition parse_all :: "nat \<Rightarrow> Tokenizer \<Rightarrow> (Statement list, Tokenizer) result" where
  "parse_all fuel tk = parse_all_loop fuel [] tk"

text \<open>\<^verbatim>\<open>Parser(text).parse_all()\<close>, the \<^verbatim>\<open>parseAll\<close> of the specification, with fuel enough
  for every text (lemma \<open>parseAll_total_spans\<close> below).\<close>

definition parse_fuel :: "string \<Rightarrow> nat" where
  "parse_fuel txt = 4 * length txt + 16"

definition parseAll :: "string \<Rightarrow> (exception + Statement list) option" where
  "parseAll txt = map_option fst (parse_all (parse_fuel txt) (Tokenizer_init txt 0))"

section \<open>The tokenizer on single operators\<close>

text \<open>
  C4. The claim: on an input that is exactly the text of an operator kind of the
  punctuation mapping, such as \<^verbatim>\<open>-\<close> or \<^verbatim>\<open>~\<close>, the tokenizer emits one punctuation token of
  the mapped kind. The code: the mapping does send \<^verbatim>\<open>-\<close> to \<open>MINUS\<close> and \<^verbatim>\<open>~\<close> to \<open>BIT_NOT\<close>,
  but neither character is in the class of the operator pattern (\<^verbatim>\<open>*-+\<close> there is a range),
  so the pattern does not match and the token is a one-character \<open>UNKNOWN_OPERATOR\<close>.
\<close>

theorem C4_minus_is_unknown_operator:
  "map_of text_to_punctuation_token ''-'' = Some MINUS
   \<and> fst (consume (Tokenizer_init ''-'' 0)) = PunctuationToken 0 1 UNKNOWN_OPERATOR
   \<and> map_of text_to_punctuation_token ''~'' = Some BIT_NOT
   \<and> fst (consume (Tokenizer_init ''~'' 0)) = PunctuationToken 0 1 UNKNOWN_OPERATOR
   \<and> fst (consume (Tokenizer_init ''+'' 0)) = PunctuationToken 0 1 PLUS
   \<and> fst (consume (Tokenizer_init ''<='' 0)) = PunctuationToken 0 2 LESS_THAN_OR_EQUAL
   \<and> fst (consume (Tokenizer_init ''::'' 0)) = PunctuationToken 0 2 DOUBLE_COLON"
  by code_simp

section \<open>Properties of every run of the parser\<close>

lemma then_do_Inr_iff:
  "then_do m f = Some (Inr y, s') \<longleftrightarrow> (\<exists>a s. m = Some (Inr a, s) \<and> f a s = Some (Inr y, s'))"
  by (auto simp: then_do_def split: option.splits sum.splits prod.splits)

lemma then_do_InrE:
  assumes "then_do m f = Some (Inr y, s')"
  obtains a s where "m = Some (Inr a, s)" "f a s = Some (Inr y, s')"
  using assms by (auto simp: then_do_Inr_iff)

lemma then_do_Some_Inr [simp]: "then_do (Some (Inr a, s)) f = f a s"
  by (simp add: then_do_def)

lemma then_do_Some_Inl [simp]: "then_do (Some (Inl e, s)) f = Some (Inl e, s)"
  by (simp add: then_do_def)

lemma then_do_None [simp]: "then_do None f = None"
  by (simp add: then_do_def)

definition operator_precedence :: "Token \<Rightarrow> int" where
  "operator_precedence token =
    (case operator_kind_of token of
       Some kind \<Rightarrow>
         (case map_of operator_to_precedence kind of
            Some p \<Rightarrow> p | None \<Rightarrow> comma_precedence + 1)
     | None \<Rightarrow> comma_precedence + 1)"

fun prec_ok :: "int \<Rightarrow> Expression \<Rightarrow> bool" where
  "prec_ok c (ValueExpression _) = True"
| "prec_ok c (PlaceholderExpression _) = True"
| "prec_ok c (ParenExpression _ e _) = prec_ok comma_precedence e"
| "prec_ok c (BinaryExpression l operator r) =
    (operator_precedence operator \<le> c \<and> prec_ok c l
     \<and> prec_ok (operator_precedence operator - 1) r)"

lemma comma_precedence_100 [simp]: "comma_precedence = 100"
  by (simp add: comma_precedence_def operator_to_precedence_def)

lemma prec_ok_all:
  "(\<forall>c tk ps e s. parse_expression fuel c tk ps = Some (Inr e, s) \<longrightarrow> prec_ok c e)
 \<and> (\<forall>c e0 tk ps e s. prec_ok c e0 \<longrightarrow>
        parse_expression_loop fuel c e0 tk ps = Some (Inr e, s) \<longrightarrow> prec_ok c e)
 \<and> (\<forall>tk ps e s. parse_non_binary_expression fuel tk ps = Some (Inr e, s) \<longrightarrow> (\<forall>c. prec_ok c e))
 \<and> (\<forall>token tk ps e s. parse_non_binary_expression_loop fuel token tk ps = Some (Inr e, s)
        \<longrightarrow> (\<forall>c. prec_ok c e))"
proof (induction fuel)
  case 0
  show ?case by simp
next
  case (Suc n)
  note pe = Suc.IH[THEN conjunct1, rule_format]
  note pl = Suc.IH[THEN conjunct2, THEN conjunct1, rule_format]
  note pn = Suc.IH[THEN conjunct2, THEN conjunct2, THEN conjunct1, rule_format]
  note pnl = Suc.IH[THEN conjunct2, THEN conjunct2, THEN conjunct2, rule_format]
  have 1: "prec_ok c e" if "parse_expression (Suc n) c tk ps = Some (Inr e, s)" for c tk ps e s
    using that by (auto elim!: then_do_InrE split: if_splits) (meson pn pl)+
  have 2: "prec_ok c e"
    if "prec_ok c e0" "parse_expression_loop (Suc n) c e0 tk ps = Some (Inr e, s)"
    for c e0 tk ps e s
  proof -
    from that(2) obtain binop tk1 ps1 where
      r: "(case operator_kind_of binop of
            None \<Rightarrow> Some (Inr e0, tk1, ps1)
          | Some kind \<Rightarrow>
              (let binop_precedence =
                     (case map_of operator_to_precedence kind of
                        Some p \<Rightarrow> p | None \<Rightarrow> comma_precedence + 1)
               in if binop_precedence > c then Some (Inr e0, tk1, ps1)
                  else
                    then_do (parse_expression n (binop_precedence - 1) (snd (consume tk1)) ps1)
                      (\<lambda>next_expression (tk, parent_statement).
                        let expression = BinaryExpression e0 binop next_expression
                        in if is_placeholder next_expression
                           then Some (Inr expression, tk, parent_statement)
                           else parse_expression_loop n c expression tk parent_statement)))
          = Some (Inr e, s)"
      by (auto elim!: then_do_InrE)
    show ?thesis
    proof (cases "operator_kind_of binop")
      case None
      with r that(1) show ?thesis by simp
    next
      case (Some kind)
      define p where "p = operator_precedence binop"
      have p: "(case map_of operator_to_precedence kind of
                  Some p \<Rightarrow> p | None \<Rightarrow> comma_precedence + 1) = p"
        by (simp add: p_def operator_precedence_def Some)
      show ?thesis
      proof (cases "p > c")
        case True
        with r Some p that(1) show ?thesis by (simp add: Let_def)
      next
        case False
        with r Some p obtain ne tk2 ps2 where
          ne: "parse_expression n (p - 1) (snd (consume tk1)) ps1 = Some (Inr ne, tk2, ps2)"
          and r2: "(if is_placeholder ne then Some (Inr (BinaryExpression e0 binop ne), tk2, ps2)
                    else parse_expression_loop n c (BinaryExpression e0 binop ne) tk2 ps2)
                   = Some (Inr e, s)"
          by (auto elim!: then_do_InrE simp: Let_def)
        from pe[OF ne] have "prec_ok (p - 1) ne" .
        with False that(1) have b: "prec_ok c (BinaryExpression e0 binop ne)"
          by (simp add: p_def)
        show ?thesis
        proof (cases "is_placeholder ne")
          case True
          with r2 b show ?thesis by simp
        next
          case False
          with r2 have "parse_expression_loop n c (BinaryExpression e0 binop ne) tk2 ps2
                          = Some (Inr e, s)" by simp
          from pl[OF b this] show ?thesis .
        qed
      qed
    qed
  qed
  have 3: "prec_ok c e" if "parse_non_binary_expression (Suc n) tk ps = Some (Inr e, s)"
    for c tk ps e s
    using that
    by (auto elim!: then_do_InrE
             split: if_splits option.splits sum.splits exception.splits prod.splits)
       (meson pnl)+
  have 4: "prec_ok c e"
    if "parse_non_binary_expression_loop (Suc n) token tk ps = Some (Inr e, s)"
    for c token tk ps e s
    using that
    by (auto elim!: then_do_InrE split: if_splits Token.splits) (meson pe pnl)+
  show ?case by (intro conjI allI impI) (meson 1 2 3 4)+
qed

lemma then_do_SomeE:
  assumes "then_do m f = Some (r, s')"
  obtains (raised) e where "m = Some (Inl e, s')" "r = Inl e"
        | (went_on) a s where "m = Some (Inr a, s)" "f a s = Some (r, s')"
  using assms by (auto simp: then_do_def split: option.splits sum.splits prod.splits)

subsection \<open>No exception leaves the expression and clause parsers\<close>

lemma gnst_loop_no_raise:
  "get_next_standard_token_loop fuel token tk ps \<noteq> Some (Inl e, s)"
  by (induction fuel arbitrary: token tk ps)
     (auto simp: Let_def split: if_splits sum.splits prod.splits)

lemma gnst_no_raise: "get_next_standard_token fuel tk ps \<noteq> Some (Inl e, s)"
  by (simp add: get_next_standard_token_def gnst_loop_no_raise split: prod.splits)

lemma expression_no_raise:
  "(\<forall>c tk ps e s. parse_expression fuel c tk ps \<noteq> Some (Inl e, s))
 \<and> (\<forall>c e0 tk ps e s. parse_expression_loop fuel c e0 tk ps \<noteq> Some (Inl e, s))
 \<and> (\<forall>tk ps e s. parse_non_binary_expression fuel tk ps \<noteq> Some (Inl e, s))
 \<and> (\<forall>token tk ps e s. parse_non_binary_expression_loop fuel token tk ps = Some (Inl e, s)
        \<longrightarrow> e = UnknownTokenException)"
proof (induction fuel)
  case 0
  show ?case by simp
next
  case (Suc n)
  note pe = Suc.IH[THEN conjunct1, rule_format]
  note pl = Suc.IH[THEN conjunct2, THEN conjunct1, rule_format]
  note pn = Suc.IH[THEN conjunct2, THEN conjunct2, THEN conjunct1, rule_format]
  note pnl = Suc.IH[THEN conjunct2, THEN conjunct2, THEN conjunct2, rule_format]
  have 1: "parse_expression (Suc n) c tk ps \<noteq> Some (Inl e, s)" for c tk ps e s
    by (auto elim!: then_do_SomeE simp: pn pl split: if_splits)
  have 2: "parse_expression_loop (Suc n) c e0 tk ps \<noteq> Some (Inl e, s)" for c e0 tk ps e s
    by (auto elim!: then_do_SomeE simp: pe pl gnst_no_raise Let_def split: if_splits option.splits)
  have 3: "parse_non_binary_expression (Suc n) tk ps \<noteq> Some (Inl e, s)" for tk ps e s
    by (auto elim!: then_do_SomeE simp: gnst_no_raise
             split: if_splits option.splits sum.splits exception.splits prod.splits dest: pnl)
  have 4: "e = UnknownTokenException"
    if "parse_non_binary_expression_loop (Suc n) token tk ps = Some (Inl e, s)" for token tk ps e s
    using that
    by (auto elim!: then_do_SomeE simp: gnst_no_raise pe split: if_splits Token.splits dest: pnl)
  show ?case using 1 2 3 4 by (intro conjI allI impI) (meson 1 2 3 4)+
qed

subsection \<open>The parsers below the statement change only its comments\<close>

definition no_comments :: "Statement \<Rightarrow> Statement" where
  "no_comments ps = ps\<lparr>comments := []\<rparr>"

lemma no_comments_update [simp]: "no_comments (ps\<lparr>comments := cs\<rparr>) = no_comments ps"
  by (simp add: no_comments_def)

lemma no_comments_fields:
  "no_comments ps' = no_comments ps \<Longrightarrow>
     selects ps' = selects ps \<and> froms ps' = froms ps \<and> wheres ps' = wheres ps
     \<and> unknowns ps' = unknowns ps \<and> st_start ps' = st_start ps \<and> st_length ps' = st_length ps"
  unfolding no_comments_def
  by (metis (no_types, lifting) Statement.select_convs Statement.surjective Statement.update_convs(6))

lemma gnst_loop_frame:
  "get_next_standard_token_loop fuel token tk ps = Some (r, tk', ps')
    \<Longrightarrow> no_comments ps' = no_comments ps"
proof (induction fuel arbitrary: token tk ps)
  case 0
  then show ?case by simp
next
  case (Suc n)
  from Suc.prems show ?case
    by (auto simp: Let_def split: if_splits sum.splits prod.splits dest!: Suc.IH)
qed

lemma gnst_frame:
  "get_next_standard_token fuel tk ps = Some (r, tk', ps') \<Longrightarrow> no_comments ps' = no_comments ps"
  by (auto simp: get_next_standard_token_def split: prod.splits dest: gnst_loop_frame)

lemma expression_frame:
  "(\<forall>c tk ps e tk' ps'. parse_expression fuel c tk ps = Some (Inr e, tk', ps')
        \<longrightarrow> no_comments ps' = no_comments ps)
 \<and> (\<forall>c e0 tk ps e tk' ps'. parse_expression_loop fuel c e0 tk ps = Some (Inr e, tk', ps')
        \<longrightarrow> no_comments ps' = no_comments ps)
 \<and> (\<forall>tk ps e tk' ps'. parse_non_binary_expression fuel tk ps = Some (Inr e, tk', ps')
        \<longrightarrow> no_comments ps' = no_comments ps)
 \<and> (\<forall>token tk ps r tk' ps'. parse_non_binary_expression_loop fuel token tk ps = Some (r, tk', ps')
        \<longrightarrow> no_comments ps' = no_comments ps)"
proof (induction fuel)
  case 0
  show ?case by simp
next
  case (Suc n)
  note pe = Suc.IH[THEN conjunct1, rule_format]
  note pl = Suc.IH[THEN conjunct2, THEN conjunct1, rule_format]
  note pn = Suc.IH[THEN conjunct2, THEN conjunct2, THEN conjunct1, rule_format]
  note pnl = Suc.IH[THEN conjunct2, THEN conjunct2, THEN conjunct2, rule_format]
  have 1: "no_comments ps' = no_comments ps"
    if "parse_expression (Suc n) c tk ps = Some (Inr e, tk', ps')" for c tk ps e tk' ps'
    using that by (auto elim!: then_do_InrE split: if_splits dest!: pn pl)
  have 2: "no_comments ps' = no_comments ps"
    if "parse_expression_loop (Suc n) c e0 tk ps = Some (Inr e, tk', ps')"
    for c e0 tk ps e tk' ps'
    using that
    by (auto elim!: then_do_InrE simp: Let_def split: if_splits option.splits
             dest!: pe pl gnst_frame)
  have 3: "no_comments ps' = no_comments ps"
    if "parse_non_binary_expression (Suc n) tk ps = Some (Inr e, tk', ps')"
    for tk ps e tk' ps'
    using that
    by (auto elim!: then_do_InrE split: if_splits option.splits sum.splits exception.splits prod.splits
             dest!: pnl gnst_frame)
  have 4: "no_comments ps' = no_comments ps"
    if "parse_non_binary_expression_loop (Suc n) token tk ps = Some (r, tk', ps')"
    for token tk ps r tk' ps'
    using that
    by (auto elim!: then_do_SomeE split: if_splits Token.splits
             simp: expression_no_raise gnst_no_raise dest!: pe pnl gnst_frame)
  show ?case by (intro conjI allI impI) (meson 1 2 3 4)+
qed

lemmas parse_expression_no_raise = expression_no_raise[THEN conjunct1, rule_format]
lemmas parse_expression_frame = expression_frame[THEN conjunct1, rule_format]
lemmas parse_expression_prec_ok = prec_ok_all[THEN conjunct1, rule_format]

subsection \<open>Clauses\<close>

lemma parse_alias_no_raise: "parse_alias fuel tk ps \<noteq> Some (Inl e, s)"
  by (auto simp: parse_alias_def gnst_no_raise elim!: then_do_SomeE split: if_splits)

lemma parse_alias_frame:
  "parse_alias fuel tk ps = Some (r, tk', ps') \<Longrightarrow> no_comments ps' = no_comments ps"
  by (auto simp: parse_alias_def gnst_no_raise elim!: then_do_SomeE split: if_splits
           dest!: gnst_frame)

definition select_ok :: "SelectClause \<Rightarrow> bool" where
  "select_ok c = (select_fields c \<noteq> []
     \<and> list_all (\<lambda>f. prec_ok (comma_precedence - 1) (sf_expression f)) (select_fields c))"

definition from_ok :: "FromClause \<Rightarrow> bool" where
  "from_ok c = (from_fields c \<noteq> [] \<and> list_all (\<lambda>f. prec_ok 1 (table_name f)) (from_fields c))"

definition where_ok :: "WhereClause \<Rightarrow> bool" where
  "where_ok c = prec_ok (comma_precedence - 1) (where_expression c)"

lemma parse_select_loop_props:
  "parse_select_loop fuel ret tk ps = Some (r, tk', ps') \<Longrightarrow>
     list_all (\<lambda>f. prec_ok (comma_precedence - 1) (sf_expression f)) (select_fields ret) \<Longrightarrow>
     no_comments ps' = no_comments ps \<and> (\<exists>c. r = Inr c \<and> select_ok c)"
proof (induction fuel arbitrary: ret tk ps)
  case 0
  then show ?case by simp
next
  case (Suc n)
  from Suc.prems(1) obtain expression tk1 ps1 al token tk2 ps2 where
    e: "parse_expression n (comma_precedence - 1) tk ps = Some (Inr expression, tk1, ps1)"
    and a: "parse_alias n tk1 ps1 = Some (Inr (al, token), tk2, ps2)"
    and r: "(if is_punctuation COMMA token
             then parse_select_loop n
                    (SelectClause (select_fields ret @ [SelectField expression al]))
                    (snd (consume tk2)) ps2
             else Some (Inr (SelectClause (select_fields ret @ [SelectField expression al])),
                        tk2, ps2)) = Some (r, tk', ps')"
    by (auto elim!: then_do_SomeE simp: parse_expression_no_raise parse_alias_no_raise Let_def)
  have f: "no_comments ps2 = no_comments ps"
    using parse_expression_frame[OF e] parse_alias_frame[OF a] by simp
  have p: "prec_ok (comma_precedence - 1) expression"
    using parse_expression_prec_ok[OF e] by simp
  let ?ret = "SelectClause (select_fields ret @ [SelectField expression al])"
  have l: "list_all (\<lambda>f. prec_ok (comma_precedence - 1) (sf_expression f)) (select_fields ?ret)"
    using Suc.prems(2) p by simp
  show ?case
  proof (cases "is_punctuation COMMA token")
    case True
    with r have "parse_select_loop n ?ret (snd (consume tk2)) ps2 = Some (r, tk', ps')" by simp
    from Suc.IH[OF this l] f show ?thesis by simp
  next
    case False
    with r l f show ?thesis by (auto simp: select_ok_def)
  qed
qed

lemma parse_select_props:
  "parse_select fuel tk ps = Some (r, tk', ps') \<Longrightarrow>
     no_comments ps' = no_comments ps \<and> (\<exists>c. r = Inr c \<and> select_ok c)"
  unfolding parse_select_def by (erule parse_select_loop_props) simp

lemma parse_from_loop_props:
  "parse_from_loop fuel ret tk ps = Some (r, tk', ps') \<Longrightarrow>
     list_all (\<lambda>f. prec_ok 1 (table_name f)) (from_fields ret) \<Longrightarrow>
     no_comments ps' = no_comments ps \<and> (\<exists>c. r = Inr c \<and> from_ok c)"
proof (induction fuel arbitrary: ret tk ps)
  case 0
  then show ?case by simp
next
  case (Suc n)
  have d: "the (map_of operator_to_precedence (Inl DOT)) = 1"
    by (simp add: operator_to_precedence_def)
  from Suc.prems(1) obtain expression tk1 ps1 al token tk2 ps2 where
    e: "parse_expression n 1 tk ps = Some (Inr expression, tk1, ps1)"
    and a: "parse_alias n tk1 ps1 = Some (Inr (al, token), tk2, ps2)"
    and r: "(if is_punctuation COMMA token
             then parse_from_loop n
                    (FromClause (from_fields ret @ [FromField expression al]))
                    (snd (consume tk2)) ps2
             else Some (Inr (FromClause (from_fields ret @ [FromField expression al])),
                        tk2, ps2)) = Some (r, tk', ps')"
    by (auto elim!: then_do_SomeE simp: parse_expression_no_raise parse_alias_no_raise Let_def d)
  have f: "no_comments ps2 = no_comments ps"
    using parse_expression_frame[OF e] parse_alias_frame[OF a] by simp
  have p: "prec_ok 1 expression"
    using parse_expression_prec_ok[OF e] by simp
  let ?ret = "FromClause (from_fields ret @ [FromField expression al])"
  have l: "list_all (\<lambda>f. prec_ok 1 (table_name f)) (from_fields ?ret)"
    using Suc.prems(2) p by simp
  show ?case
  proof (cases "is_punctuation COMMA token")
    case True
    with r have "parse_from_loop n ?ret (snd (consume tk2)) ps2 = Some (r, tk', ps')" by simp
    from Suc.IH[OF this l] f show ?thesis by simp
  next
    case False
    with r l f show ?thesis by (auto simp: from_ok_def)
  qed
qed

lemma parse_from_props:
  "parse_from fuel tk ps = Some (r, tk', ps') \<Longrightarrow>
     no_comments ps' = no_comments ps \<and> (\<exists>c. r = Inr c \<and> from_ok c)"
  unfolding parse_from_def by (erule parse_from_loop_props) simp

lemma parse_where_props:
  "parse_where fuel tk ps = Some (r, tk', ps') \<Longrightarrow>
     no_comments ps' = no_comments ps \<and> (\<exists>c. r = Inr c \<and> where_ok c)"
  unfolding parse_where_def
  by (auto elim!: then_do_SomeE simp: parse_expression_no_raise where_ok_def
           dest: parse_expression_frame parse_expression_prec_ok)

subsection \<open>Statements\<close>

definition statement_ok :: "Statement \<Rightarrow> bool" where
  "statement_ok s = (list_all select_ok (selects s) \<and> list_all from_ok (froms s)
     \<and> list_all where_ok (wheres s))"

definition n_clauses :: "Statement \<Rightarrow> nat" where
  "n_clauses s = length (selects s) + length (froms s) + length (wheres s)"

lemma parse_statement_try_props:
  assumes "parse_statement_try fuel token tk ret = Some (r, tk', ret')"
  shows "(r = Inl UnknownTokenException \<and> tk' = tk \<and> ret' = ret)
   \<or> (r = Inr True
        \<and> ret' = ret\<lparr>st_length := end_idx_of_last_consumed_token tk - st_start ret\<rparr>)
   \<or> (r = Inr False \<and> (\<exists>ps'. no_comments ps' = no_comments ret \<and>
         ((\<exists>c. select_ok c \<and> ret' = ps'\<lparr>selects := selects ps' @ [c]\<rparr>)
          \<or> (\<exists>c. from_ok c \<and> ret' = ps'\<lparr>froms := froms ps' @ [c]\<rparr>)
          \<or> (\<exists>c. where_ok c \<and> ret' = ps'\<lparr>wheres := wheres ps' @ [c]\<rparr>))))"
proof (cases token)
  case (NameToken s l ty)
  with assms show ?thesis
    unfolding parse_statement_try_def
    by (auto elim!: then_do_SomeE split: if_splits
          dest!: parse_select_props parse_from_props parse_where_props)
next
  case (NumberToken s l)
  with assms show ?thesis unfolding parse_statement_try_def by auto
next
  case (PunctuationToken s l ty)
  with assms show ?thesis unfolding parse_statement_try_def by (auto split: if_splits)
next
  case (SpecialToken s l ty e)
  with assms show ?thesis unfolding parse_statement_try_def by (auto split: if_splits)
qed

lemma statement_ok_frame:
  "no_comments ps' = no_comments ps \<Longrightarrow> statement_ok ps' = statement_ok ps"
  by (drule no_comments_fields) (simp add: statement_ok_def)

lemma n_clauses_frame:
  "no_comments ps' = no_comments ps \<Longrightarrow> n_clauses ps' = n_clauses ps"
  by (drule no_comments_fields) (simp add: n_clauses_def)

lemma parse_statement_loop_props:
  "parse_statement_loop fuel prev tk ret = Some (r, tk', ret') \<Longrightarrow>
   statement_ok ret \<Longrightarrow> (\<not> prev \<longrightarrow> unknowns ret \<noteq> []) \<Longrightarrow>
   length (unknowns ret) + (if prev then 1 else 0) \<le> n_clauses ret + 1 \<Longrightarrow>
   r = Inr ret' \<and> statement_ok ret' \<and> length (unknowns ret') \<le> n_clauses ret' + 1
     \<and> st_start ret' = st_start ret"
proof (induction fuel arbitrary: prev tk ret)
  case 0
  then show ?case by simp
next
  case (Suc n)
  from Suc.prems(1) obtain token tk1 ret1 where
    g: "get_next_standard_token n tk ret = Some (Inr token, tk1, ret1)"
    and c: "(case parse_statement_try n token tk1 ret1 of
          None \<Rightarrow> None
        | Some (Inr True, tk, ret) \<Rightarrow> Some (Inr ret, tk, ret)
        | Some (Inr False, tk, ret) \<Rightarrow> parse_statement_loop n True tk ret
        | Some (Inl UnknownTokenException, tk, ret) \<Rightarrow>
            (let tk = snd (consume tk) in
             if prev then
               parse_statement_loop n False tk
                 (ret\<lparr>unknowns := unknowns ret @
                    [\<lparr>us_start = start token, us_length = tlength token, first_token = token\<rparr>]\<rparr>)
             else if unknowns ret = [] then Some (Inl IndexError, tk, ret)
             else
               parse_statement_loop n False tk
                 (ret\<lparr>unknowns := butlast (unknowns ret) @
                    [(last (unknowns ret))
                       \<lparr>us_length := start token + tlength token - us_start (last (unknowns ret))\<rparr>]\<rparr>))
        | Some (Inl e, s) \<Rightarrow> Some (Inl e, s)) = Some (r, tk', ret')"
    by (auto elim!: then_do_SomeE simp: gnst_no_raise)
  have f1: "no_comments ret1 = no_comments ret" by (rule gnst_frame[OF g])
  note fr = no_comments_fields[OF f1]
  have ok1: "statement_ok ret1" using Suc.prems(2) statement_ok_frame[OF f1] by simp
  have n1: "n_clauses ret1 = n_clauses ret" by (rule n_clauses_frame[OF f1])
  from c obtain r1 tk2 ret2 where t: "parse_statement_try n token tk1 ret1 = Some (r1, tk2, ret2)"
    by (cases "parse_statement_try n token tk1 ret1") auto
  from parse_statement_try_props[OF t] consider
    (unknown) "r1 = Inl UnknownTokenException" "tk2 = tk1" "ret2 = ret1"
    | (stop) "r1 = Inr True"
        "ret2 = ret1\<lparr>st_length := end_idx_of_last_consumed_token tk1 - st_start ret1\<rparr>"
    | (clause) ps' where "r1 = Inr False" "no_comments ps' = no_comments ret1"
        "(\<exists>c. select_ok c \<and> ret2 = ps'\<lparr>selects := selects ps' @ [c]\<rparr>)
          \<or> (\<exists>c. from_ok c \<and> ret2 = ps'\<lparr>froms := froms ps' @ [c]\<rparr>)
          \<or> (\<exists>c. where_ok c \<and> ret2 = ps'\<lparr>wheres := wheres ps' @ [c]\<rparr>)"
    by blast
  then show ?case
  proof cases
    case unknown
    show ?thesis
    proof (cases prev)
      case True
      let ?ret = "ret1\<lparr>unknowns := unknowns ret1 @
                    [\<lparr>us_start = start token, us_length = tlength token, first_token = token\<rparr>]\<rparr>"
      from c t unknown True
      have l: "parse_statement_loop n False (snd (consume tk1)) ?ret = Some (r, tk', ret')"
        by (simp add: Let_def)
      have "statement_ok ?ret" using ok1 by (simp add: statement_ok_def)
      moreover have "length (unknowns ?ret) + (if False then 1 else 0) \<le> n_clauses ?ret + 1"
        using Suc.prems(4) True fr n1 by (simp add: n_clauses_def)
      ultimately show ?thesis using Suc.IH[OF l] fr by simp
    next
      case False
      with Suc.prems(3) fr have ne: "unknowns ret1 \<noteq> []" by simp
      let ?ret = "ret1\<lparr>unknowns := butlast (unknowns ret1) @
                    [(last (unknowns ret1))
                       \<lparr>us_length := start token + tlength token - us_start (last (unknowns ret1))\<rparr>]\<rparr>"
      from c t unknown False ne
      have l: "parse_statement_loop n False (snd (consume tk1)) ?ret = Some (r, tk', ret')"
        by (simp add: Let_def)
      have "statement_ok ?ret" using ok1 by (simp add: statement_ok_def)
      moreover have "length (unknowns ?ret) + (if False then 1 else 0) \<le> n_clauses ?ret + 1"
        using Suc.prems(4) False fr n1 ne by (simp add: n_clauses_def)
      ultimately show ?thesis using Suc.IH[OF l] fr by simp
    qed
  next
    case stop
    with c t have "r = Inr ret2" "ret' = ret2" by auto
    moreover have "statement_ok ret2" using ok1 stop by (simp add: statement_ok_def)
    moreover have "length (unknowns ret2) \<le> n_clauses ret2 + 1"
      using Suc.prems(4) fr n1 stop by (simp add: n_clauses_def split: if_splits)
    ultimately show ?thesis using fr stop by simp
  next
    case clause
    with c t have l: "parse_statement_loop n True tk2 ret2 = Some (r, tk', ret')" by simp
    note fp = no_comments_fields[OF clause(2)]
    have okp: "statement_ok ps'" using ok1 statement_ok_frame[OF clause(2)] by simp
    have "statement_ok ret2" using clause(3) okp by (auto simp: statement_ok_def)
    moreover have "length (unknowns ret2) + (if True then 1 else 0) \<le> n_clauses ret2 + 1"
      using clause(3) Suc.prems(4) fr fp by (auto simp: n_clauses_def split: if_splits)
    moreover have "st_start ret2 = st_start ret" using clause(3) fr fp by auto
    ultimately show ?thesis using Suc.IH[OF l] by simp
  qed
qed

definition statement_props :: "Statement \<Rightarrow> bool" where
  "statement_props s = (statement_ok s \<and> length (unknowns s) \<le> n_clauses s + 1)"

lemma parse_statement_props:
  assumes "parse_statement fuel tk = Some (r, tk')"
  shows "\<exists>s. r = Inr s \<and> statement_props s"
proof -
  obtain token tk1 where p: "peek 1 tk = (token, tk1)" by (cases "peek 1 tk")
  with assms obtain ret' where
    l: "parse_statement_loop fuel True tk1 (Statement_init (start token) (tlength token))
          = Some (r, tk', ret')"
    by (auto simp: parse_statement_def)
  have "statement_ok (Statement_init (start token) (tlength token))"
    by (simp add: statement_ok_def Statement_init_def)
  from parse_statement_loop_props[OF l this] show ?thesis
    by (simp add: Statement_init_def n_clauses_def statement_props_def)
qed

lemma cns_loop_no_raise: "consume_newline_semicolons_loop fuel token tk \<noteq> Some (Inl e, s)"
  by (induction fuel arbitrary: token tk) (auto simp: Let_def split: prod.splits)

lemma cns_no_raise: "consume_newline_semicolons fuel tk \<noteq> Some (Inl e, s)"
  by (simp add: consume_newline_semicolons_def cns_loop_no_raise split: prod.splits)

lemma parse_all_loop_props:
  "parse_all_loop fuel ret tk = Some (r, tk') \<Longrightarrow> list_all statement_props ret \<Longrightarrow>
     \<exists>stmts. r = Inr stmts \<and> list_all statement_props stmts"
proof (induction fuel arbitrary: ret tk)
  case 0
  then show ?case by simp
next
  case (Suc n)
  from Suc.prems(1) obtain token tk1 where
    c: "consume_newline_semicolons n tk = Some (Inr token, tk1)"
    and r: "(if is_special END_OF_STRING token then Some (Inr ret, tk1)
             else then_do (parse_statement n tk1)
                    (\<lambda>statement tk. parse_all_loop n (ret @ [statement]) tk)) = Some (r, tk')"
    by (auto elim!: then_do_SomeE simp: cns_no_raise)
  show ?case
  proof (cases "is_special END_OF_STRING token")
    case True
    with r Suc.prems(2) show ?thesis by auto
  next
    case False
    with r have "then_do (parse_statement n tk1)
                    (\<lambda>statement tk. parse_all_loop n (ret @ [statement]) tk) = Some (r, tk')"
      by simp
    then obtain s tk2 where s: "parse_statement n tk1 = Some (Inr s, tk2)"
      and l: "parse_all_loop n (ret @ [s]) tk2 = Some (r, tk')"
      by (auto elim!: then_do_SomeE dest: parse_statement_props)
    from parse_statement_props[OF s] Suc.prems(2)
    have "list_all statement_props (ret @ [s])" by simp
    from Suc.IH[OF l this] show ?thesis .
  qed
qed

lemma parseAll_props:
  assumes "parseAll txt = Some r"
  shows "\<exists>stmts. r = Inr stmts \<and> list_all statement_props stmts"
proof -
  from assms obtain tk' where
    "parse_all_loop (parse_fuel txt) [] (Tokenizer_init txt 0) = Some (r, tk')"
    by (auto simp: parseAll_def parse_all_def)
  from parse_all_loop_props[OF this] show ?thesis by simp
qed

lemma parseAll_statement_ok:
  "parseAll txt = Some (Inr stmts) \<Longrightarrow> s \<in> set stmts \<Longrightarrow> statement_props s"
  by (drule parseAll_props) (auto simp: list_all_iff)

subsection \<open>What the precedence bound says about the operators\<close>

lemma operator_precedence_ge_1: "1 \<le> operator_precedence operator"
  by (auto simp: operator_precedence_def operator_kind_of_def operator_to_precedence_def
           split: Token.splits option.splits if_splits)

lemma operator_precedence_dot:
  "operator_precedence operator \<le> 1 \<Longrightarrow> is_punctuation DOT operator"
  by (auto simp: operator_precedence_def operator_kind_of_def operator_to_precedence_def
                 is_punctuation_def
           split: Token.splits option.splits if_splits)

lemma operator_precedence_comma:
  "is_punctuation COMMA operator \<Longrightarrow> operator_precedence operator = 100"
  by (auto simp: operator_precedence_def operator_kind_of_def operator_to_precedence_def
                 is_punctuation_def
           split: Token.splits)

section \<open>Claims about the shape of the tree\<close>

fun left_associated :: "Expression \<Rightarrow> bool" where
  "left_associated (BinaryExpression l operator r) =
    (left_associated l \<and> left_associated r
     \<and> (case r of
          BinaryExpression _ operator' _ \<Rightarrow> operator_precedence operator' < operator_precedence operator
        | _ \<Rightarrow> True))"
| "left_associated (ParenExpression _ e _) = left_associated e"
| "left_associated (ValueExpression _) = True"
| "left_associated (PlaceholderExpression _) = True"

lemma prec_ok_left_associated: "prec_ok c e \<Longrightarrow> left_associated e"
proof (induction e arbitrary: c)
  case (BinaryExpression l operator r)
  from BinaryExpression.prems have l: "prec_ok c l"
    and r: "prec_ok (operator_precedence operator - 1) r" by auto
  have "left_associated l" by (rule BinaryExpression.IH(1)[OF l])
  moreover have "left_associated r" by (rule BinaryExpression.IH(2)[OF r])
  moreover have "case r of
          BinaryExpression _ operator' _ \<Rightarrow> operator_precedence operator' < operator_precedence operator
        | _ \<Rightarrow> True"
    using r by (cases r) auto
  ultimately show ?case by simp
qed auto

fun has_comma_operator :: "Expression \<Rightarrow> bool" where
  "has_comma_operator (BinaryExpression l operator r) =
    (is_punctuation COMMA operator \<or> has_comma_operator l \<or> has_comma_operator r)"
| "has_comma_operator (ParenExpression _ e _) = has_comma_operator e"
| "has_comma_operator (ValueExpression _) = False"
| "has_comma_operator (PlaceholderExpression _) = False"

fun comma_outside_parentheses :: "Expression \<Rightarrow> bool" where
  "comma_outside_parentheses (BinaryExpression l operator r) =
    (is_punctuation COMMA operator \<or> comma_outside_parentheses l \<or> comma_outside_parentheses r)"
| "comma_outside_parentheses (ParenExpression _ e _) = False"
| "comma_outside_parentheses (ValueExpression _) = False"
| "comma_outside_parentheses (PlaceholderExpression _) = False"

lemma prec_ok_no_comma: "prec_ok c e \<Longrightarrow> c < 100 \<Longrightarrow> \<not> comma_outside_parentheses e"
proof (induction e arbitrary: c)
  case (BinaryExpression l operator r)
  from BinaryExpression.prems have p: "operator_precedence operator \<le> c"
    and l: "prec_ok c l" and r: "prec_ok (operator_precedence operator - 1) r" by auto
  have "\<not> is_punctuation COMMA operator"
    using operator_precedence_comma[of operator] p BinaryExpression.prems(2) by auto
  moreover have "\<not> comma_outside_parentheses l"
    by (rule BinaryExpression.IH(1)[OF l BinaryExpression.prems(2)])
  moreover have "\<not> comma_outside_parentheses r"
    using BinaryExpression.IH(2)[OF r] p BinaryExpression.prems(2) by simp
  ultimately show ?case by simp
qed auto

fun only_dot_operators :: "Expression \<Rightarrow> bool" where
  "only_dot_operators (BinaryExpression l operator r) =
    (is_punctuation DOT operator \<and> only_dot_operators l \<and> only_dot_operators r)"
| "only_dot_operators (ParenExpression _ e _) = only_dot_operators e"
| "only_dot_operators (ValueExpression _) = True"
| "only_dot_operators (PlaceholderExpression _) = True"

definition non_binary :: "Expression \<Rightarrow> bool" where
  "non_binary e = (case e of BinaryExpression _ _ _ \<Rightarrow> False | _ \<Rightarrow> True)"

fun dot_chain :: "Expression \<Rightarrow> bool" where
  "dot_chain (BinaryExpression l operator r) =
    (is_punctuation DOT operator \<and> dot_chain l \<and> non_binary r)"
| "dot_chain (ParenExpression _ e _) = True"
| "dot_chain (ValueExpression _) = True"
| "dot_chain (PlaceholderExpression _) = True"

lemma prec_ok_non_binary: "prec_ok c e \<Longrightarrow> c < 1 \<Longrightarrow> non_binary e"
proof (cases e)
  case (BinaryExpression l operator r)
  assume "prec_ok c e" "c < 1"
  with BinaryExpression operator_precedence_ge_1[of operator] show ?thesis by simp
qed (simp_all add: non_binary_def)

lemma prec_ok_dot_chain: "prec_ok c e \<Longrightarrow> c \<le> 1 \<Longrightarrow> dot_chain e"
proof (induction e arbitrary: c)
  case (BinaryExpression l operator r)
  from BinaryExpression.prems have p: "operator_precedence operator \<le> 1"
    and l: "prec_ok c l" and r: "prec_ok (operator_precedence operator - 1) r" by auto
  from p have "is_punctuation DOT operator" by (rule operator_precedence_dot)
  moreover from BinaryExpression.IH(1)[OF l BinaryExpression.prems(2)] have "dot_chain l" .
  moreover from prec_ok_non_binary[OF r] p have "non_binary r" by simp
  ultimately show ?case by simp
qed auto

text \<open>
  C2. Parsing \<^verbatim>\<open>a + b * c\<close> gives \<open>Binary(a, +, Binary(b, *, c))\<close>, parsing \<^verbatim>\<open>a * b + c\<close> gives
  \<open>Binary(Binary(a, *, b), +, c)\<close>, parsing \<^verbatim>\<open>a < b and c < d\<close> gives
  \<open>Binary(Binary(a, <, b), and, Binary(c, <, d))\<close>; and in every expression that
  \<open>parse_expression\<close> returns, at whatever ceiling and from whatever state, the right operand of
  a binary node is never a binary node whose operator binds as loosely as the node's own or
  more loosely: operators of equal precedence associate to the left.
\<close>

theorem C2_precedence_and_left_association:
  "map_option fst (parse_expression 20 (comma_precedence - 1) (Tokenizer_init ''a + b * c'' 0) (Statement_init 0 0))
     = Some (Inr (BinaryExpression (ValueExpression (NameToken 0 1 NON_KEYWORD)) (PunctuationToken 2 1 PLUS) (BinaryExpression (ValueExpression (NameToken 4 1 NON_KEYWORD)) (PunctuationToken 6 1 MULTIPLY) (ValueExpression (NameToken 8 1 NON_KEYWORD)))))
   \<and> map_option fst (parse_expression 20 (comma_precedence - 1) (Tokenizer_init ''a * b + c'' 0) (Statement_init 0 0))
     = Some (Inr (BinaryExpression (BinaryExpression (ValueExpression (NameToken 0 1 NON_KEYWORD)) (PunctuationToken 2 1 MULTIPLY) (ValueExpression (NameToken 4 1 NON_KEYWORD))) (PunctuationToken 6 1 PLUS) (ValueExpression (NameToken 8 1 NON_KEYWORD))))
   \<and> map_option fst (parse_expression 20 (comma_precedence - 1) (Tokenizer_init ''a < b and c < d'' 0) (Statement_init 0 0))
     = Some (Inr (BinaryExpression (BinaryExpression (ValueExpression (NameToken 0 1 NON_KEYWORD)) (PunctuationToken 2 1 LESS_THAN) (ValueExpression (NameToken 4 1 NON_KEYWORD))) (NameToken 6 3 AND) (BinaryExpression (ValueExpression (NameToken 10 1 NON_KEYWORD)) (PunctuationToken 12 1 LESS_THAN) (ValueExpression (NameToken 14 1 NON_KEYWORD)))))
   \<and> (\<forall>fuel ceiling tk ps e s.
         parse_expression fuel ceiling tk ps = Some (Inr e, s) \<longrightarrow> left_associated e)"
proof (intro conjI allI impI)
  fix fuel ceiling tk ps e s
  assume "parse_expression fuel ceiling tk ps = Some (Inr e, s)"
  then show "left_associated e"
    by (rule prec_ok_left_associated[OF parse_expression_prec_ok])
qed code_simp+

theorem C2_witness:
  "map_option fst (parse_expression 20 (comma_precedence - 1) (Tokenizer_init ''a + b + c'' 0) (Statement_init 0 0))
     = Some (Inr (BinaryExpression (BinaryExpression (ValueExpression (NameToken 0 1 NON_KEYWORD)) (PunctuationToken 2 1 PLUS) (ValueExpression (NameToken 4 1 NON_KEYWORD))) (PunctuationToken 6 1 PLUS) (ValueExpression (NameToken 8 1 NON_KEYWORD))))
   \<and> left_associated (BinaryExpression (BinaryExpression (ValueExpression (NameToken 0 1 NON_KEYWORD)) (PunctuationToken 2 1 PLUS) (ValueExpression (NameToken 4 1 NON_KEYWORD))) (PunctuationToken 6 1 PLUS) (ValueExpression (NameToken 8 1 NON_KEYWORD)))"
proof -
  have e: "map_option fst (parse_expression 20 (comma_precedence - 1) (Tokenizer_init ''a + b + c'' 0) (Statement_init 0 0))
     = Some (Inr (BinaryExpression (BinaryExpression (ValueExpression (NameToken 0 1 NON_KEYWORD)) (PunctuationToken 2 1 PLUS) (ValueExpression (NameToken 4 1 NON_KEYWORD))) (PunctuationToken 6 1 PLUS) (ValueExpression (NameToken 8 1 NON_KEYWORD))))"
    by code_simp
  then obtain s where
    "parse_expression 20 (comma_precedence - 1) (Tokenizer_init ''a + b + c'' 0) (Statement_init 0 0)
       = Some (Inr (BinaryExpression (BinaryExpression (ValueExpression (NameToken 0 1 NON_KEYWORD)) (PunctuationToken 2 1 PLUS) (ValueExpression (NameToken 4 1 NON_KEYWORD))) (PunctuationToken 6 1 PLUS) (ValueExpression (NameToken 8 1 NON_KEYWORD))), s)"
    by (auto simp: map_option_case split: option.splits)
  with C2_precedence_and_left_association
  have "left_associated (BinaryExpression (BinaryExpression (ValueExpression (NameToken 0 1 NON_KEYWORD)) (PunctuationToken 2 1 PLUS) (ValueExpression (NameToken 4 1 NON_KEYWORD))) (PunctuationToken 6 1 PLUS) (ValueExpression (NameToken 8 1 NON_KEYWORD)))"
    by blast
  with e show ?thesis by simp
qed

text \<open>
  C3, as stated: no binary expression anywhere in a statement that \<open>parseAll\<close> returns has a
  comma as its operator, also inside parentheses. It fails on \<^verbatim>\<open>select (a, b)\<close>: inside
  parentheses the ceiling is the comma's own precedence, and the comma is taken as a binary
  operator.
\<close>

theorem C3_counterexample:
  "parseAll ''select (a, b)'' = Some (Inr [\<lparr>st_start = 0, st_length = 13, selects = [SelectClause [SelectField (ParenExpression (PunctuationToken 7 1 LEFT_PAREN) (BinaryExpression (ValueExpression (NameToken 8 1 NON_KEYWORD)) (PunctuationToken 9 1 COMMA) (ValueExpression (NameToken 11 1 NON_KEYWORD))) (Some (PunctuationToken 12 1 RIGHT_PAREN))) None]], froms = [], wheres = [], comments = [], unknowns = []\<rparr>])
   \<and> has_comma_operator (ParenExpression (PunctuationToken 7 1 LEFT_PAREN) (BinaryExpression (ValueExpression (NameToken 8 1 NON_KEYWORD)) (PunctuationToken 9 1 COMMA) (ValueExpression (NameToken 11 1 NON_KEYWORD))) (Some (PunctuationToken 12 1 RIGHT_PAREN)))"
  by code_simp

text \<open>
  C3, amended: in every statement that \<open>parseAll\<close> returns, no binary expression outside
  parentheses has a comma as its operator, in the fields of SELECT and FROM clauses and in
  WHERE clauses; there the commas are left to the field loops.
\<close>

theorem C3_no_comma_outside_parentheses:
  assumes "parseAll txt = Some (Inr stmts)" and "s \<in> set stmts"
  shows "(\<forall>c \<in> set (selects s). \<forall>f \<in> set (select_fields c).
            \<not> comma_outside_parentheses (sf_expression f))
       \<and> (\<forall>c \<in> set (froms s). \<forall>f \<in> set (from_fields c).
            \<not> comma_outside_parentheses (table_name f))
       \<and> (\<forall>w \<in> set (wheres s). \<not> comma_outside_parentheses (where_expression w))"
proof -
  from parseAll_statement_ok[OF assms] have "statement_ok s"
    by (simp add: statement_props_def)
  moreover have "\<not> comma_outside_parentheses e" if "prec_ok 99 e" for e
    using prec_ok_no_comma[OF that] by simp
  moreover have "\<not> comma_outside_parentheses e" if "prec_ok 1 e" for e
    using prec_ok_no_comma[OF that] by simp
  ultimately show ?thesis
    unfolding statement_ok_def select_ok_def from_ok_def where_ok_def list_all_iff
    by simp
qed

theorem C3_witness:
  "parseAll ''select a, (b, c) where d'' = Some (Inr [\<lparr>st_start = 0, st_length = 24, selects = [SelectClause [SelectField (ValueExpression (NameToken 7 1 NON_KEYWORD)) None, SelectField (ParenExpression (PunctuationToken 10 1 LEFT_PAREN) (BinaryExpression (ValueExpression (NameToken 11 1 NON_KEYWORD)) (PunctuationToken 12 1 COMMA) (ValueExpression (NameToken 14 1 NON_KEYWORD))) (Some (PunctuationToken 15 1 RIGHT_PAREN))) None]], froms = [], wheres = [WhereClause (ValueExpression (NameToken 23 1 NON_KEYWORD))], comments = [], unknowns = []\<rparr>])
   \<and> \<not> comma_outside_parentheses (ValueExpression (NameToken 7 1 NON_KEYWORD))
   \<and> \<not> comma_outside_parentheses (ParenExpression (PunctuationToken 10 1 LEFT_PAREN) (BinaryExpression (ValueExpression (NameToken 11 1 NON_KEYWORD)) (PunctuationToken 12 1 COMMA) (ValueExpression (NameToken 14 1 NON_KEYWORD))) (Some (PunctuationToken 15 1 RIGHT_PAREN)))
   \<and> \<not> comma_outside_parentheses (ValueExpression (NameToken 23 1 NON_KEYWORD))"
proof -
  have e: "parseAll ''select a, (b, c) where d'' = Some (Inr [\<lparr>st_start = 0, st_length = 24, selects = [SelectClause [SelectField (ValueExpression (NameToken 7 1 NON_KEYWORD)) None, SelectField (ParenExpression (PunctuationToken 10 1 LEFT_PAREN) (BinaryExpression (ValueExpression (NameToken 11 1 NON_KEYWORD)) (PunctuationToken 12 1 COMMA) (ValueExpression (NameToken 14 1 NON_KEYWORD))) (Some (PunctuationToken 15 1 RIGHT_PAREN))) None]], froms = [], wheres = [WhereClause (ValueExpression (NameToken 23 1 NON_KEYWORD))], comments = [], unknowns = []\<rparr>])"
    by code_simp
  from C3_no_comma_outside_parentheses[OF e, of "\<lparr>st_start = 0, st_length = 24, selects = [SelectClause [SelectField (ValueExpression (NameToken 7 1 NON_KEYWORD)) None, SelectField (ParenExpression (PunctuationToken 10 1 LEFT_PAREN) (BinaryExpression (ValueExpression (NameToken 11 1 NON_KEYWORD)) (PunctuationToken 12 1 COMMA) (ValueExpression (NameToken 14 1 NON_KEYWORD))) (Some (PunctuationToken 15 1 RIGHT_PAREN))) None]], froms = [], wheres = [WhereClause (ValueExpression (NameToken 23 1 NON_KEYWORD))], comments = [], unknowns = []\<rparr>"]
  show ?thesis using e by simp
qed

text \<open>
  C8, as stated: the table name of every FROM field consists only of leaves combined by
  \<^verbatim>\<open>.\<close> operators, and no other operator kind is accepted. It fails on \<^verbatim>\<open>from (a + b)\<close>: a
  parenthesised group is a leaf of the chain, and inside it any operator is taken.
\<close>

theorem C8_counterexample:
  "parseAll ''from (a + b)'' = Some (Inr [\<lparr>st_start = 0, st_length = 12, selects = [], froms = [FromClause [FromField (ParenExpression (PunctuationToken 5 1 LEFT_PAREN) (BinaryExpression (ValueExpression (NameToken 6 1 NON_KEYWORD)) (PunctuationToken 8 1 PLUS) (ValueExpression (NameToken 10 1 NON_KEYWORD))) (Some (PunctuationToken 11 1 RIGHT_PAREN))) None]], wheres = [], comments = [], unknowns = []\<rparr>])
   \<and> \<not> only_dot_operators (ParenExpression (PunctuationToken 5 1 LEFT_PAREN) (BinaryExpression (ValueExpression (NameToken 6 1 NON_KEYWORD)) (PunctuationToken 8 1 PLUS) (ValueExpression (NameToken 10 1 NON_KEYWORD))) (Some (PunctuationToken 11 1 RIGHT_PAREN)))"
  by code_simp

text \<open>
  C8, amended: the table name of every FROM field in every statement that \<open>parseAll\<close> returns
  is a chain, associated to the left, of values, placeholders and parenthesised groups joined
  by \<^verbatim>\<open>.\<close> operators; no other operator stands outside parentheses.
\<close>

theorem C8_table_name_dot_chain:
  assumes "parseAll txt = Some (Inr stmts)" and "s \<in> set stmts"
    and "c \<in> set (froms s)" and "f \<in> set (from_fields c)"
  shows "dot_chain (table_name f)"
proof -
  from parseAll_statement_ok[OF assms(1,2)] have "statement_ok s"
    by (simp add: statement_props_def)
  with assms(3,4) have "prec_ok 1 (table_name f)"
    by (auto simp: statement_ok_def from_ok_def list_all_iff)
  then show ?thesis by (rule prec_ok_dot_chain) simp
qed

theorem C8_witness:
  "parseAll ''from s.t x'' = Some (Inr [\<lparr>st_start = 0, st_length = 10, selects = [], froms = [FromClause [FromField (BinaryExpression (ValueExpression (NameToken 5 1 NON_KEYWORD)) (PunctuationToken 6 1 DOT) (ValueExpression (NameToken 7 1 NON_KEYWORD))) (Some (NameToken 9 1 NON_KEYWORD))]], wheres = [], comments = [], unknowns = []\<rparr>])
   \<and> dot_chain (BinaryExpression (ValueExpression (NameToken 5 1 NON_KEYWORD)) (PunctuationToken 6 1 DOT) (ValueExpression (NameToken 7 1 NON_KEYWORD)))"
proof -
  have e: "parseAll ''from s.t x'' = Some (Inr [\<lparr>st_start = 0, st_length = 10, selects = [], froms = [FromClause [FromField (BinaryExpression (ValueExpression (NameToken 5 1 NON_KEYWORD)) (PunctuationToken 6 1 DOT) (ValueExpression (NameToken 7 1 NON_KEYWORD))) (Some (NameToken 9 1 NON_KEYWORD))]], wheres = [], comments = [], unknowns = []\<rparr>])"
    by code_simp
  from C8_table_name_dot_chain[OF e, of "\<lparr>st_start = 0, st_length = 10, selects = [], froms = [FromClause [FromField (BinaryExpression (ValueExpression (NameToken 5 1 NON_KEYWORD)) (PunctuationToken 6 1 DOT) (ValueExpression (NameToken 7 1 NON_KEYWORD))) (Some (NameToken 9 1 NON_KEYWORD))]], wheres = [], comments = [], unknowns = []\<rparr>"
         "FromClause [FromField (BinaryExpression (ValueExpression (NameToken 5 1 NON_KEYWORD)) (PunctuationToken 6 1 DOT) (ValueExpression (NameToken 7 1 NON_KEYWORD))) (Some (NameToken 9 1 NON_KEYWORD))]"
         "FromField (BinaryExpression (ValueExpression (NameToken 5 1 NON_KEYWORD)) (PunctuationToken 6 1 DOT) (ValueExpression (NameToken 7 1 NON_KEYWORD))) (Some (NameToken 9 1 NON_KEYWORD))"]
  show ?thesis using e by simp
qed



section \<open>The tokenizer covers the text\<close>

text \<open>The scanning functions are unfolded by hand from here on.\<close>

declare scan_while.simps [simp del] match_quoted.simps [simp del] search_newline.simps [simp del]
  match_multiline_comment.simps [simp del] peek_loop.simps [simp del]

lemma scan_while_ge: "i \<le> scan_while f s i"
proof (induction f s i rule: scan_while.induct)
  case (1 f s i)
  then show ?case by (subst scan_while.simps) auto
qed

lemma scan_while_le: "i \<le> length s \<Longrightarrow> scan_while f s i \<le> length s"
proof (induction f s i rule: scan_while.induct)
  case (1 f s i)
  then show ?case by (subst scan_while.simps) auto
qed

lemma scan_while_all: "i \<le> j \<Longrightarrow> j < scan_while f s i \<Longrightarrow> f (s ! j)"
proof (induction f s i rule: scan_while.induct)
  case (1 f s i)
  show ?case
  proof (cases "i < length s \<and> f (s ! i)")
    case True
    then have eq: "scan_while f s i = scan_while f s (i + 1)"
      by (subst scan_while.simps) simp
    show ?thesis
    proof (cases "j = i")
      case True with \<open>i < length s \<and> f (s ! i)\<close> show ?thesis by simp
    next
      case False
      with 1 True eq show ?thesis by auto
    qed
  next
    case False
    then have "scan_while f s i = i" by (subst scan_while.simps) auto
    with 1 show ?thesis by simp
  qed
qed

lemma match_quoted_bounds: "match_quoted q s i = Some e \<Longrightarrow> i < e \<and> e \<le> length s"
proof (induction q s i arbitrary: e rule: match_quoted.induct)
  case (1 q s i)
  from "1.prems" have *: "\<not> length s \<le> i"
    by (subst (asm) match_quoted.simps) (auto split: if_splits)
  let ?a = "if s ! i = CHR 0x5C \<and> i + 1 < length s \<and> s ! (i + 1) = q
              then match_quoted q s (i + 2) else None"
  show ?case
  proof (cases ?a)
    case (Some e')
    with "1.prems" * have "e' = e" by (subst (asm) match_quoted.simps) simp
    with Some have "match_quoted q s (i + 2) = Some e"
      and "s ! i = CHR 0x5C \<and> i + 1 < length s \<and> s ! (i + 1) = q"
      by (auto split: if_splits)
    with "1.IH"(1)[OF *] show ?thesis by fastforce
  next
    case None
    show ?thesis
    proof (cases "if s ! i \<noteq> q then match_quoted q s (i + 1) else None")
      case (Some e')
      with "1.prems" * None have "e' = e" by (subst (asm) match_quoted.simps) simp
      with Some have "match_quoted q s (i + 1) = Some e" and "s ! i \<noteq> q"
        by (auto split: if_splits)
      with "1.IH"(2)[OF * None] show ?thesis by fastforce
    next
      case None': None
      with "1.prems" * None show ?thesis
        by (subst (asm) match_quoted.simps) (auto split: if_splits)
    qed
  qed
qed

lemma search_newline_bounds: "search_newline s i = Some e \<Longrightarrow> i \<le> e \<and> e < length s"
proof (induction s i arbitrary: e rule: search_newline.induct)
  case (1 s i)
  from "1.prems" "1.IH" show ?case
    by (subst (asm) search_newline.simps) (fastforce split: if_splits)
qed

lemma match_multiline_comment_bounds:
  "match_multiline_comment s i = Some e \<Longrightarrow> i + 2 \<le> e \<and> e \<le> length s"
proof (induction s i arbitrary: e rule: match_multiline_comment.induct)
  case (1 s i)
  from "1.prems" "1.IH" show ?case
    by (subst (asm) match_multiline_comment.simps) (fastforce split: if_splits)
qed

definition skip_ws :: "string \<Rightarrow> nat \<Rightarrow> nat" where
  "skip_ws s p = scan_while (\<lambda>c. isspace c \<and> c \<noteq> CHR 0x0A) s p"

lemma skip_ws_bounds: "p \<le> skip_ws s p" "p \<le> length s \<Longrightarrow> skip_ws s p \<le> length s"
  by (simp_all add: skip_ws_def scan_while_ge scan_while_le)

lemma search_next_props:
  assumes "p \<le> length s" "search_next s p = (t, p')"
  shows "start t = int (skip_ws s p)"
    and "start t + tlength t = int p'"
    and "p' \<le> length s"
    and "skip_ws s p \<le> p'"
    and "is_special END_OF_STRING t \<longleftrightarrow> skip_ws s p = length s"
    and "\<not> is_special END_OF_STRING t \<Longrightarrow> skip_ws s p < p'"
proof -
  define g where "g = skip_ws s p"
  have g: "p \<le> g" "g \<le> length s" using assms(1) by (simp_all add: g_def skip_ws_bounds)
  have sw: "Suc g \<le> scan_while f s (Suc g)" for f by (rule scan_while_ge)
  have sw': "g < length s \<Longrightarrow> scan_while f s (Suc g) \<le> length s" for f
    by (rule scan_while_le) simp
  have sw0: "g \<le> scan_while f s g" "scan_while f s g \<le> length s" for f
    using g by (simp_all add: scan_while_ge scan_while_le)
  have "start t = int g \<and> start t + tlength t = int p' \<and> p' \<le> length s \<and> g \<le> p'
        \<and> (is_special END_OF_STRING t \<longleftrightarrow> g = length s)
        \<and> (\<not> is_special END_OF_STRING t \<longrightarrow> g < p')"
    using assms(2) g sw[of "\<lambda>c. isalnum c \<or> c = CHR ''_''"] sw'[of "\<lambda>c. isalnum c \<or> c = CHR ''_''"]
      sw[of "\<lambda>c. is_ascii_digit c \<or> c = CHR ''.''"] sw'[of "\<lambda>c. is_ascii_digit c \<or> c = CHR ''.''"]
      sw0[of operator_char]
    unfolding search_next_def Let_def skip_ws_def[symmetric] g_def[symmetric]
    by (auto simp: is_special_def split: if_splits option.splits
         dest: match_quoted_bounds search_newline_bounds match_multiline_comment_bounds)
  then show "start t = int (skip_ws s p)"
    and "start t + tlength t = int p'"
    and "p' \<le> length s"
    and "skip_ws s p \<le> p'"
    and "is_special END_OF_STRING t \<longleftrightarrow> skip_ws s p = length s"
    and "\<not> is_special END_OF_STRING t \<Longrightarrow> skip_ws s p < p'"
    by (simp_all add: g_def)
qed

text \<open>
  The tokens of a text: \<^verbatim>\<open>consume\<close> is called until it gives \<open>END_OF_STRING\<close>, at most \<open>n\<close>
  times (\<open>None\<close>: \<open>n\<close> calls were not enough). \<open>reconstruct s p toks\<close> concatenates, from position
  \<open>p\<close> on, the gap before each token and the text the token spans. \<open>covers s p toks\<close> says that
  the tokens follow one another from \<open>p\<close> to the end of the text, that each gap holds only white
  space other than the newline, that every token but the last is non-empty and that the last,
  and only the last, is \<open>END_OF_STRING\<close>.
\<close>

fun consume_all :: "nat \<Rightarrow> Tokenizer \<Rightarrow> Token list option" where
  "consume_all 0 tk = None"
| "consume_all (Suc n) tk =
    (let (token, tk) = consume tk
     in if is_special END_OF_STRING token then Some [token]
        else map_option ((#) token) (consume_all n tk))"

fun reconstruct :: "string \<Rightarrow> nat \<Rightarrow> Token list \<Rightarrow> string" where
  "reconstruct s p [] = []"
| "reconstruct s p (t # ts) =
    slice s p (nat (start t)) @ slice s (nat (start t)) (nat (start t + tlength t))
    @ reconstruct s (nat (start t + tlength t)) ts"

fun covers :: "string \<Rightarrow> nat \<Rightarrow> Token list \<Rightarrow> bool" where
  "covers s p [] = False"
| "covers s p (t # ts) =
    (int p \<le> start t \<and> 0 \<le> tlength t \<and> start t + tlength t \<le> int (length s)
     \<and> list_all (\<lambda>c. isspace c \<and> c \<noteq> CHR 0x0A) (slice s p (nat (start t)))
     \<and> (if ts = [] then is_special END_OF_STRING t \<and> start t = int (length s)
         else \<not> is_special END_OF_STRING t \<and> 0 < tlength t
              \<and> covers s (nat (start t + tlength t)) ts))"

lemma slice_append: "a \<le> b \<Longrightarrow> b \<le> c \<Longrightarrow> slice s a b @ slice s b c = slice s a c"
proof -
  assume ab: "a \<le> b" and bc: "b \<le> c"
  have "take ((b - a) + (c - b)) (drop a s) = take (b - a) (drop a s) @ take (c - b) (drop (b - a) (drop a s))"
    by (rule take_add)
  with ab bc show ?thesis by (simp add: slice_def)
qed

lemma slice_to_end: "slice s a (length s) = drop a s"
  by (simp add: slice_def)

lemma slice_empty: "slice s a a = []"
  by (simp add: slice_def)

lemma scan_while_slice: "list_all f (slice s p (scan_while f s p))"
proof -
  have "f (slice s p (scan_while f s p) ! i)" if "i < length (slice s p (scan_while f s p))" for i
  proof -
    from that have *: "p + i < scan_while f s p" "p + i < length s" "p \<le> length s"
      by (auto simp: slice_def)
    then have "f (s ! (p + i))" using scan_while_all[of p "p + i" f s] by simp
    with that * show ?thesis by (simp add: slice_def)
  qed
  then show ?thesis by (simp add: list_all_length)
qed

lemma consume_empty_queue:
  "peek_queue tk = [] \<Longrightarrow> search_next (tk_text tk) (start_position tk) = (t, p')
   \<Longrightarrow> consume tk = (t, tk\<lparr>start_position := p', end_idx_of_last_consumed_token := start t + tlength t\<rparr>)"
  by (simp add: consume_def)

lemma consume_all_lossless:
  "peek_queue tk = [] \<Longrightarrow> start_position tk \<le> length (tk_text tk)
   \<Longrightarrow> length (tk_text tk) - start_position tk < n
   \<Longrightarrow> \<exists>toks. consume_all n tk = Some toks
        \<and> reconstruct (tk_text tk) (start_position tk) toks = drop (start_position tk) (tk_text tk)
        \<and> covers (tk_text tk) (start_position tk) toks"
proof (induction n arbitrary: tk)
  case 0
  then show ?case by simp
next
  case (Suc n)
  let ?s = "tk_text tk" and ?p = "start_position tk"
  obtain t p' where sn: "search_next ?s ?p = (t, p')" by (cases "search_next ?s ?p")
  define tk' where "tk' = tk\<lparr>start_position := p', end_idx_of_last_consumed_token := start t + tlength t\<rparr>"
  have c: "consume tk = (t, tk')" using consume_empty_queue[OF Suc.prems(1) sn] by (simp add: tk'_def)
  note props = search_next_props[OF Suc.prems(2) sn]
  have g: "?p \<le> skip_ws ?s ?p" by (rule skip_ws_bounds)
  have st: "nat (start t) = skip_ws ?s ?p" "nat (start t + tlength t) = p'"
    using props(1,2) by simp_all
  have ws: "list_all (\<lambda>c. isspace c \<and> c \<noteq> CHR 0x0A) (slice ?s ?p (nat (start t)))"
    unfolding st skip_ws_def by (rule scan_while_slice)
  have tl: "tlength t = int p' - int (skip_ws ?s ?p)" using props(1,2) by simp
  show ?case
  proof (cases "is_special END_OF_STRING t")
    case True
    with props have e: "skip_ws ?s ?p = length ?s" "p' = length ?s" by auto
    have "reconstruct ?s ?p [t] = drop ?p ?s"
      by (simp add: st e slice_to_end slice_empty)
    moreover have "covers ?s ?p [t]"
      using ws True props(1,2) g e by (simp add: tl)
    moreover have "consume_all (Suc n) tk = Some [t]" using c True by simp
    ultimately show ?thesis by blast
  next
    case False
    with props have lt: "skip_ws ?s ?p < p'" by simp
    have "peek_queue tk' = []" "start_position tk' \<le> length (tk_text tk')"
      "length (tk_text tk') - start_position tk' < n"
      using Suc.prems props(3) lt g by (simp_all add: tk'_def)
    from Suc.IH[OF this] obtain toks where
      toks: "consume_all n tk' = Some toks" "reconstruct ?s p' toks = drop p' ?s"
        "covers ?s p' toks"
      by (auto simp: tk'_def)
    from toks(3) props(3) lt have ne: "toks \<noteq> []" by (cases toks) auto
    have "reconstruct ?s ?p (t # toks) = drop ?p ?s"
      using g lt props(3) by (simp add: st toks(2) slice_append slice_to_end[symmetric])
    moreover have "covers ?s ?p (t # toks)"
      using ws False props(1,2,3) g lt ne toks(3) by (simp add: tl st)
    moreover have "consume_all (Suc n) tk = Some (t # toks)" using c False toks(1) by simp
    ultimately show ?thesis by blast
  qed
qed

lemma consume_all_from_start:
  "\<exists>toks. consume_all (Suc (length s)) (Tokenizer_init s 0) = Some toks
     \<and> reconstruct s 0 toks = s \<and> covers s 0 toks"
  using consume_all_lossless[of "Tokenizer_init s 0" "Suc (length s)"]
  by (simp add: Tokenizer_init_def)

text \<open>
  C7. For every text the tokenizer reaches \<open>END_OF_STRING\<close> (within one call of \<^verbatim>\<open>consume\<close> more
  than the text has characters); the gaps it skips and the texts of the tokens it gives,
  concatenated in order, are the text; the tokens follow one another without overlap, so that
  every character is in exactly one token or in a gap, and a gap holds only white space.
\<close>

theorem C7_lossless_lexing:
  "\<exists>toks. consume_all (Suc (length txt)) (Tokenizer_init txt 0) = Some toks
     \<and> reconstruct txt 0 toks = txt \<and> covers txt 0 toks"
  by (rule consume_all_from_start)

section \<open>The tokenizer under the parser\<close>

text \<open>
  What the parser relies on: the peek queue holds the tokens that follow the current position.
  \<open>next_token\<close> is the token a \<^verbatim>\<open>peek()\<close> or a \<^verbatim>\<open>consume()\<close> gives, \<open>next_token2\<close> the one \<^verbatim>\<open>peek(2)\<close> gives.
  \<open>same_place\<close> relates a tokenizer to itself after peeks, \<open>consumed_to\<close> to itself after at
  least one \<^verbatim>\<open>consume()\<close> of tokens that do not end a statement, \<open>went_to\<close> to itself after
  any calls; \<open>remaining\<close> is the number of characters left.
\<close>

fun queue_ok :: "string \<Rightarrow> nat \<Rightarrow> Token list \<Rightarrow> bool" where
  "queue_ok s p [] = True"
| "queue_ok s p (t # q) = (fst (search_next s p) = t \<and> queue_ok s (snd (search_next s p)) q)"

fun queue_end :: "string \<Rightarrow> nat \<Rightarrow> Token list \<Rightarrow> nat" where
  "queue_end s p [] = p"
| "queue_end s p (t # q) = queue_end s (snd (search_next s p)) q"

definition tokenizer_ok :: "Tokenizer \<Rightarrow> bool" where
  "tokenizer_ok tk = (start_position tk \<le> length (tk_text tk)
     \<and> queue_ok (tk_text tk) (start_position tk) (peek_queue tk))"

definition next_token :: "Tokenizer \<Rightarrow> Token" where
  "next_token tk = fst (search_next (tk_text tk) (start_position tk))"

definition after_next :: "Tokenizer \<Rightarrow> nat" where
  "after_next tk = snd (search_next (tk_text tk) (start_position tk))"

definition next_token2 :: "Tokenizer \<Rightarrow> Token" where
  "next_token2 tk = fst (search_next (tk_text tk) (after_next tk))"

text \<open>A token inside a statement: not a semicolon, not the end of the text, and not a newline
  that another newline follows. \<open>tokens_between s a b\<close>: scanning from \<open>a\<close> reaches \<open>b\<close>, over
  such tokens only.\<close>

definition inner_token_at :: "string \<Rightarrow> nat \<Rightarrow> bool" where
  "inner_token_at s p =
    (let t = fst (search_next s p); t2 = fst (search_next s (snd (search_next s p)))
     in \<not> is_punctuation SEMICOLON t \<and> \<not> is_special END_OF_STRING t
        \<and> \<not> (is_punctuation NEWLINE t \<and> is_punctuation NEWLINE t2))"

function tokens_between :: "string \<Rightarrow> nat \<Rightarrow> nat \<Rightarrow> bool" where
  "tokens_between s a b =
    (if a = b then True
     else if b < a \<or> snd (search_next s a) \<le> a then False
     else inner_token_at s a \<and> tokens_between s (snd (search_next s a)) b)"
  by pat_completeness auto
termination
  by (relation "measure (\<lambda>(s, a, b). b - a)") auto

declare tokens_between.simps [simp del]

definition inner_next :: "Tokenizer \<Rightarrow> bool" where
  "inner_next tk = inner_token_at (tk_text tk) (start_position tk)"

definition synced :: "Tokenizer \<Rightarrow> bool" where
  "synced tk = (end_idx_of_last_consumed_token tk = int (start_position tk))"

definition same_place :: "Tokenizer \<Rightarrow> Tokenizer \<Rightarrow> bool" where
  "same_place tk tk' = (tokenizer_ok tk' \<and> tk_text tk' = tk_text tk
     \<and> start_position tk' = start_position tk
     \<and> end_idx_of_last_consumed_token tk' = end_idx_of_last_consumed_token tk)"

definition consumed_to :: "Tokenizer \<Rightarrow> Tokenizer \<Rightarrow> bool" where
  "consumed_to tk tk' = (tokenizer_ok tk' \<and> tk_text tk' = tk_text tk
     \<and> after_next tk \<le> start_position tk' \<and> synced tk'
     \<and> tokens_between (tk_text tk) (start_position tk) (start_position tk'))"

definition went_to :: "Tokenizer \<Rightarrow> Tokenizer \<Rightarrow> bool" where
  "went_to tk tk' = (tokenizer_ok tk' \<and> tk_text tk' = tk_text tk
     \<and> start_position tk \<le> start_position tk')"

definition moved_to :: "Tokenizer \<Rightarrow> Tokenizer \<Rightarrow> bool" where
  "moved_to tk tk' = (same_place tk tk' \<or> consumed_to tk tk')"

definition remaining :: "Tokenizer \<Rightarrow> nat" where
  "remaining tk = length (tk_text tk) - start_position tk"

lemma sn_facts:
  assumes "p \<le> length s"
  shows "p \<le> snd (search_next s p)"
    and "snd (search_next s p) \<le> length s"
    and "start (fst (search_next s p)) + tlength (fst (search_next s p)) = int (snd (search_next s p))"
    and "int p \<le> start (fst (search_next s p))"
    and "start (fst (search_next s p)) \<le> int (snd (search_next s p))"
    and "\<not> is_special END_OF_STRING (fst (search_next s p)) \<Longrightarrow> p < snd (search_next s p)"
proof -
  have eq: "search_next s p = (fst (search_next s p), snd (search_next s p))" by simp
  note props = search_next_props[OF assms eq]
  have g: "p \<le> skip_ws s p" by (rule skip_ws_bounds)
  from props(4) g show "p \<le> snd (search_next s p)" by simp
  from props(3) show "snd (search_next s p) \<le> length s" .
  from props(2) show "start (fst (search_next s p)) + tlength (fst (search_next s p)) = int (snd (search_next s p))" .
  from props(1) g show "int p \<le> start (fst (search_next s p))" by simp
  from props(1,4) show "start (fst (search_next s p)) \<le> int (snd (search_next s p))" by simp
  from props(6) g show "\<not> is_special END_OF_STRING (fst (search_next s p)) \<Longrightarrow> p < snd (search_next s p)"
    by simp
qed

lemma tokens_between_refl: "tokens_between s a a"
  by (subst tokens_between.simps) simp

lemma tokens_between_le: "tokens_between s a b \<Longrightarrow> a \<le> b"
  by (subst (asm) tokens_between.simps) (auto split: if_splits)

lemma inner_token_advances:
  assumes "a \<le> length s" "inner_token_at s a"
  shows "a < snd (search_next s a)"
  using assms(2) sn_facts(6)[OF assms(1)] by (simp add: inner_token_at_def Let_def)

lemma tokens_between_step:
  assumes "a \<le> length s" "inner_token_at s a" "tokens_between s (snd (search_next s a)) b"
  shows "tokens_between s a b"
proof -
  have "a < snd (search_next s a)" using assms(1,2) by (rule inner_token_advances)
  moreover have "snd (search_next s a) \<le> b" using assms(3) by (rule tokens_between_le)
  ultimately show ?thesis using assms(2,3) by (subst tokens_between.simps) simp
qed

lemma tokens_between_trans:
  "tokens_between s a b \<Longrightarrow> tokens_between s b c \<Longrightarrow> tokens_between s a c"
proof (induction s a b rule: tokens_between.induct)
  case (1 s a b)
  show ?case
  proof (cases "a = b")
    case True
    with "1.prems" show ?thesis by simp
  next
    case False
    with "1.prems"(1) have g: "\<not> (b < a \<or> snd (search_next s a) \<le> a)"
      and i: "inner_token_at s a" and r: "tokens_between s (snd (search_next s a)) b"
      by (subst (asm) tokens_between.simps, simp split: if_splits)+
    from "1.IH"[OF False g r "1.prems"(2)] have t: "tokens_between s (snd (search_next s a)) c" .
    from tokens_between_le[OF t] g have "a \<noteq> c" "\<not> (c < a \<or> snd (search_next s a) \<le> a)"
      by auto
    with i t show ?thesis by (subst tokens_between.simps) simp
  qed
qed

lemma queue_end_last:
  "queue_ok s p q \<Longrightarrow> p \<le> length s \<Longrightarrow> q \<noteq> []
   \<Longrightarrow> nat (start (last q) + tlength (last q)) = queue_end s p q"
proof (induction q arbitrary: p)
  case Nil
  then show ?case by simp
next
  case (Cons t q)
  show ?case
  proof (cases "q = []")
    case True
    with Cons.prems sn_facts(3)[OF Cons.prems(2)] show ?thesis by auto
  next
    case False
    with Cons.prems sn_facts(2)[OF Cons.prems(2)] Cons.IH[of "snd (search_next s p)"]
    show ?thesis by simp
  qed
qed

lemma queue_ok_snoc:
  "queue_ok s p q \<Longrightarrow> queue_ok s p (q @ [fst (search_next s (queue_end s p q))])"
  by (induction q arbitrary: p) simp_all

lemma queue_end_snoc: "queue_end s p (q @ [t]) = snd (search_next s (queue_end s p q))"
  by (induction q arbitrary: p) simp_all

lemma peek_loop_ok:
  "queue_ok s p q \<Longrightarrow>
     queue_ok s p (peek_loop s k q (queue_end s p q))
     \<and> k \<le> length (peek_loop s k q (queue_end s p q))"
proof (induction "k - length q" arbitrary: q)
  case 0
  then show ?case by (subst (1 2) peek_loop.simps) simp
next
  case (Suc n)
  let ?t = "fst (search_next s (queue_end s p q))"
  have lt: "length q < k" using Suc.hyps(2) by simp
  have eq: "peek_loop s k q (queue_end s p q)
        = peek_loop s k (q @ [?t]) (queue_end s p (q @ [?t]))"
    using lt by (subst peek_loop.simps) (simp add: queue_end_snoc split: prod.splits)
  have "n = k - length (q @ [?t])" using Suc.hyps(2) by simp
  from Suc.hyps(1)[OF this queue_ok_snoc[OF Suc.prems]] show ?case unfolding eq .
qed

lemma queue_ok_nth0: "queue_ok s p q \<Longrightarrow> 1 \<le> length q \<Longrightarrow> q ! 0 = fst (search_next s p)"
  by (cases q) auto

lemma queue_ok_nth1:
  "queue_ok s p q \<Longrightarrow> 2 \<le> length q
   \<Longrightarrow> q ! Suc 0 = fst (search_next s (snd (search_next s p)))"
  by (cases q; cases "tl q") auto

lemma peek_unfold:
  assumes "tokenizer_ok tk"
  shows "peek k tk =
    (peek_loop (tk_text tk) k (peek_queue tk)
        (queue_end (tk_text tk) (start_position tk) (peek_queue tk)) ! (k - 1),
     tk\<lparr>peek_queue := peek_loop (tk_text tk) k (peek_queue tk)
        (queue_end (tk_text tk) (start_position tk) (peek_queue tk))\<rparr>)"
proof (cases "peek_queue tk = []")
  case True
  then show ?thesis by (simp add: peek_def Let_def)
next
  case False
  with assms queue_end_last[of "tk_text tk" "start_position tk" "peek_queue tk"]
  show ?thesis by (simp add: peek_def tokenizer_ok_def Let_def)
qed

lemma peek_same_place:
  assumes "tokenizer_ok tk"
  shows "same_place tk (snd (peek k tk))"
  using assms peek_loop_ok[of "tk_text tk" "start_position tk" "peek_queue tk" k]
  by (simp add: peek_unfold same_place_def tokenizer_ok_def)

lemma peek_1:
  assumes "tokenizer_ok tk"
  shows "fst (peek 1 tk) = next_token tk"
  using assms peek_loop_ok[of "tk_text tk" "start_position tk" "peek_queue tk" 1]
  by (simp add: peek_unfold tokenizer_ok_def next_token_def queue_ok_nth0)

lemma peek_2:
  assumes "tokenizer_ok tk"
  shows "fst (peek 2 tk) = next_token2 tk"
  using assms peek_loop_ok[of "tk_text tk" "start_position tk" "peek_queue tk" 2]
  by (simp add: peek_unfold tokenizer_ok_def next_token2_def after_next_def queue_ok_nth1)

lemma consume_fst:
  assumes "tokenizer_ok tk"
  shows "fst (consume tk) = next_token tk"
  using assms
  by (cases "peek_queue tk")
     (auto simp: consume_def tokenizer_ok_def next_token_def split: prod.splits)

lemma consume_snd:
  assumes "tokenizer_ok tk"
  shows "tokenizer_ok (snd (consume tk))"
    and "tk_text (snd (consume tk)) = tk_text tk"
    and "start_position (snd (consume tk)) = after_next tk"
    and "synced (snd (consume tk))"
proof -
  have le: "start_position tk \<le> length (tk_text tk)" using assms by (simp add: tokenizer_ok_def)
  note f = sn_facts[OF le]
  have "tokenizer_ok (snd (consume tk)) \<and> tk_text (snd (consume tk)) = tk_text tk
      \<and> start_position (snd (consume tk)) = after_next tk \<and> synced (snd (consume tk))"
  proof (cases "peek_queue tk")
    case Nil
    then show ?thesis using f(2,3)
      by (auto simp: consume_def tokenizer_ok_def after_next_def synced_def split: prod.splits)
  next
    case (Cons t q)
    with assms have t: "t = fst (search_next (tk_text tk) (start_position tk))"
      and q: "queue_ok (tk_text tk) (snd (search_next (tk_text tk) (start_position tk))) q"
      by (auto simp: tokenizer_ok_def)
    from Cons show ?thesis using f(2,3) q
      by (simp add: consume_def tokenizer_ok_def after_next_def synced_def t)
  qed
  then show "tokenizer_ok (snd (consume tk))"
    and "tk_text (snd (consume tk)) = tk_text tk"
    and "start_position (snd (consume tk)) = after_next tk"
    and "synced (snd (consume tk))" by simp_all
qed

lemma consume_consumed:
  assumes "tokenizer_ok tk" "inner_next tk"
  shows "consumed_to tk (snd (consume tk))"
proof -
  have le: "start_position tk \<le> length (tk_text tk)" using assms(1) by (simp add: tokenizer_ok_def)
  have "tokens_between (tk_text tk) (start_position tk) (after_next tk)"
    using le assms(2) tokens_between_refl unfolding inner_next_def after_next_def
    by (rule tokens_between_step)
  then show ?thesis using assms(1) by (simp add: consumed_to_def consume_snd)
qed

lemma after_next_bounds:
  assumes "tokenizer_ok tk"
  shows "start_position tk \<le> after_next tk" and "after_next tk \<le> length (tk_text tk)"
    and "\<not> is_special END_OF_STRING (next_token tk) \<Longrightarrow> start_position tk < after_next tk"
    and "int (start_position tk) \<le> start (next_token tk)"
    and "start (next_token tk) \<le> int (after_next tk)"
  using assms sn_facts[of "start_position tk" "tk_text tk"]
  by (simp_all add: tokenizer_ok_def after_next_def next_token_def)

lemma consume_went:
  assumes "tokenizer_ok tk"
  shows "went_to tk (snd (consume tk))"
  using consume_snd(1,2,3)[OF assms] after_next_bounds(1)[OF assms] by (simp add: went_to_def)

lemma same_place_next:
  assumes "same_place tk tk'"
  shows "next_token tk' = next_token tk" and "after_next tk' = after_next tk"
    and "next_token2 tk' = next_token2 tk" and "remaining tk' = remaining tk"
    and "synced tk' = synced tk" and "tokenizer_ok tk'"
  using assms
  by (simp_all add: same_place_def next_token_def after_next_def next_token2_def remaining_def
        synced_def)

lemma same_place_moved: "same_place tk tk' \<Longrightarrow> moved_to tk tk'"
  by (simp add: moved_to_def)

lemma consumed_moved: "consumed_to tk tk' \<Longrightarrow> moved_to tk tk'"
  by (simp add: moved_to_def)

lemma moved_ok: "moved_to tk tk' \<Longrightarrow> tokenizer_ok tk'"
  by (auto simp: moved_to_def same_place_def consumed_to_def)

lemma consumed_toD:
  assumes "consumed_to a b"
  shows "tokenizer_ok b" and "tk_text b = tk_text a" and "after_next a \<le> start_position b"
    and "synced b" and "tokens_between (tk_text a) (start_position a) (start_position b)"
  using assms by (simp_all add: consumed_to_def)

lemma same_placeD:
  assumes "same_place a b"
  shows "tokenizer_ok b" and "tk_text b = tk_text a" and "start_position b = start_position a"
    and "end_idx_of_last_consumed_token b = end_idx_of_last_consumed_token a"
  using assms by (simp_all add: same_place_def)

lemma moved_cases:
  assumes "moved_to a b"
  obtains (same) "same_place a b" | (consumed) "consumed_to a b"
  using assms unfolding moved_to_def by blast

lemma consumed_then_moved:
  assumes "consumed_to a b" "moved_to b c"
  shows "consumed_to a c"
proof -
  note ab = consumed_toD[OF assms(1)]
  from assms(2) show ?thesis
  proof (cases rule: moved_cases)
    case same
    note bc = same_placeD[OF same]
    have "synced c" using ab(4) bc(3,4) by (simp add: synced_def)
    then show ?thesis using ab bc unfolding consumed_to_def by simp
  next
    case consumed
    note bc = consumed_toD[OF consumed]
    have "start_position b \<le> after_next b" using ab(1) by (rule after_next_bounds(1))
    moreover have "tokens_between (tk_text a) (start_position a) (start_position c)"
      using ab(5) bc(5)[unfolded ab(2)] by (rule tokens_between_trans)
    ultimately show ?thesis using ab(1-4) bc(1-4) unfolding consumed_to_def by simp
  qed
qed

lemma moved_then_consumed:
  assumes "tokenizer_ok a" "moved_to a b" "consumed_to b c"
  shows "consumed_to a c"
proof -
  note bc = consumed_toD[OF assms(3)]
  from assms(2) show ?thesis
  proof (cases rule: moved_cases)
    case same
    have "after_next b = after_next a" using same by (rule same_place_next(2))
    then show ?thesis using same_placeD[OF same] bc unfolding consumed_to_def by simp
  next
    case consumed
    moreover have "moved_to b c" using assms(3) by (rule consumed_moved)
    ultimately show ?thesis by (rule consumed_then_moved)
  qed
qed

lemma moved_trans:
  assumes "tokenizer_ok a" "moved_to a b" "moved_to b c"
  shows "moved_to a c"
  using assms(2)
proof (cases rule: moved_cases)
  case consumed
  then have "consumed_to a c" using assms(3) by (rule consumed_then_moved)
  then show ?thesis by (rule consumed_moved)
next
  case same
  note ab = same_placeD[OF same]
  from assms(3) show ?thesis
  proof (cases rule: moved_cases)
    case consumed
    with assms(1,2) have "consumed_to a c" by (rule moved_then_consumed)
    then show ?thesis by (rule consumed_moved)
  next
    case same
    note bc = same_placeD[OF same]
    have "same_place a c" using ab bc unfolding same_place_def by simp
    then show ?thesis by (rule same_place_moved)
  qed
qed

lemma moved_remaining:
  assumes "tokenizer_ok a" "moved_to a b"
  shows "remaining b \<le> remaining a"
  using assms(2)
proof (cases rule: moved_cases)
  case same
  then show ?thesis by (simp add: same_place_next(4))
next
  case consumed
  note ab = consumed_toD[OF consumed]
  have "start_position a \<le> after_next a" using assms(1) by (rule after_next_bounds(1))
  then show ?thesis using ab(2,3) unfolding remaining_def by simp
qed

lemma consumed_remaining:
  assumes "tokenizer_ok a" "consumed_to a b" "\<not> is_special END_OF_STRING (next_token a)"
  shows "remaining b < remaining a"
proof -
  note ab = consumed_toD[OF assms(2)]
  have "start_position a < after_next a" using assms(1,3) by (rule after_next_bounds(3))
  moreover have "start_position b \<le> length (tk_text b)" using ab(1) by (simp add: tokenizer_ok_def)
  ultimately show ?thesis using ab(2,3) unfolding remaining_def by simp
qed

lemma went_toD:
  assumes "went_to a b"
  shows "tokenizer_ok b" and "tk_text b = tk_text a" and "start_position a \<le> start_position b"
  using assms by (simp_all add: went_to_def)

lemma went_refl: "tokenizer_ok a \<Longrightarrow> went_to a a"
  by (simp add: went_to_def)

lemma went_trans: "went_to a b \<Longrightarrow> went_to b c \<Longrightarrow> went_to a c"
  by (simp add: went_to_def)

lemma went_remaining:
  assumes "went_to a b"
  shows "remaining b \<le> remaining a"
proof -
  from assms have "tk_text b = tk_text a" "start_position a \<le> start_position b"
    by (simp_all add: went_to_def)
  then show ?thesis unfolding remaining_def by simp
qed

lemma moved_between:
  assumes "moved_to a b"
  shows "tokens_between (tk_text a) (start_position a) (start_position b)"
  using assms
proof (cases rule: moved_cases)
  case same
  then show ?thesis by (simp add: same_placeD tokens_between_refl)
next
  case consumed
  then show ?thesis by (rule consumed_toD)
qed

lemma moved_went:
  assumes "tokenizer_ok a" "moved_to a b"
  shows "went_to a b"
  using assms(2)
proof (cases rule: moved_cases)
  case same
  then show ?thesis by (simp add: went_to_def same_placeD)
next
  case consumed
  with after_next_bounds(1)[OF assms(1)] consumed_toD(1,2,3)[OF consumed] show ?thesis
    by (simp add: went_to_def)
qed

subsection \<open>Kinds of tokens\<close>

text \<open>The tokens on which \<^verbatim>\<open>parse_statement\<close> leaves its loop, and the tokens that
  \<^verbatim>\<open>get_next_standard_token\<close> consumes: a comment, and a newline that no newline follows.
  \<open>skip_tokens s p\<close> is the position at which \<^verbatim>\<open>get_next_standard_token\<close> stops when it starts
  at \<open>p\<close>.\<close>

definition stop_token :: "Token \<Rightarrow> bool" where
  "stop_token t = (is_punctuation SEMICOLON t \<or> is_punctuation NEWLINE t
     \<or> is_special END_OF_STRING t)"

definition skip_token_at :: "string \<Rightarrow> nat \<Rightarrow> bool" where
  "skip_token_at s p =
    (let t = fst (search_next s p); t2 = fst (search_next s (snd (search_next s p)))
     in is_comment t \<or> (is_punctuation NEWLINE t \<and> \<not> is_punctuation NEWLINE t2))"

function skip_tokens :: "string \<Rightarrow> nat \<Rightarrow> nat" where
  "skip_tokens s p =
    (if skip_token_at s p \<and> p < snd (search_next s p) \<and> snd (search_next s p) \<le> length s
     then skip_tokens s (snd (search_next s p)) else p)"
  by pat_completeness auto
termination
  by (relation "measure (\<lambda>(s, p). length s - p)") auto

declare skip_tokens.simps [simp del]

lemma not_stop:
  "is_name nty t \<Longrightarrow> \<not> stop_token t"
  "is_comment t \<Longrightarrow> \<not> stop_token t"
  "is_punctuation ty t \<Longrightarrow> ty \<noteq> SEMICOLON \<Longrightarrow> ty \<noteq> NEWLINE \<Longrightarrow> \<not> stop_token t"
  "is_special sty t \<Longrightarrow> sty \<noteq> END_OF_STRING \<Longrightarrow> \<not> stop_token t"
  by (auto simp: stop_token_def is_punctuation_def is_name_def is_special_def is_comment_def
        split: Token.splits)

lemma not_stop_not_eos: "\<not> stop_token t \<Longrightarrow> \<not> is_special END_OF_STRING t"
  by (simp add: stop_token_def)

lemma inner_next_iff:
  "inner_next tk \<longleftrightarrow>
     \<not> is_punctuation SEMICOLON (next_token tk) \<and> \<not> is_special END_OF_STRING (next_token tk)
     \<and> \<not> (is_punctuation NEWLINE (next_token tk) \<and> is_punctuation NEWLINE (next_token2 tk))"
  by (simp add: inner_next_def inner_token_at_def next_token_def next_token2_def after_next_def
        Let_def)

lemma inner_next_not_stop: "\<not> stop_token (next_token tk) \<Longrightarrow> inner_next tk"
  by (simp add: inner_next_iff stop_token_def)

lemma inner_next_newline:
  "is_punctuation NEWLINE (next_token tk) \<Longrightarrow> \<not> is_punctuation NEWLINE (next_token2 tk)
   \<Longrightarrow> inner_next tk"
  by (auto simp: inner_next_iff is_punctuation_def is_special_def split: Token.splits)

lemma skip_tokens_stay:
  "\<not> skip_token_at s p \<Longrightarrow> skip_tokens s p = p"
  by (subst skip_tokens.simps) simp

lemma skip_tokens_step:
  assumes "tokenizer_ok tk" "skip_token_at (tk_text tk) (start_position tk)"
  shows "skip_tokens (tk_text tk) (start_position tk) = skip_tokens (tk_text tk) (after_next tk)"
proof -
  have ne: "\<not> is_special END_OF_STRING (next_token tk)"
    using assms(2)
    by (auto simp: skip_token_at_def next_token_def Let_def is_comment_def is_special_def
          is_punctuation_def split: Token.splits)
  from after_next_bounds(2,3)[OF assms(1)] ne assms(2) show ?thesis
    by (subst skip_tokens.simps) (simp add: after_next_def)
qed

lemma skip_token_at_iff:
  "skip_token_at (tk_text tk) (start_position tk) \<longleftrightarrow>
     is_comment (next_token tk)
     \<or> (is_punctuation NEWLINE (next_token tk) \<and> \<not> is_punctuation NEWLINE (next_token2 tk))"
  by (simp add: skip_token_at_def next_token_def next_token2_def after_next_def Let_def)

text \<open>The tokens that \<^verbatim>\<open>consume_newline_semicolons\<close> consumes, and the position at which it
  stops when it starts at \<open>p\<close>.\<close>

definition separator_token :: "Token \<Rightarrow> bool" where
  "separator_token t = (is_punctuation SEMICOLON t \<or> is_punctuation NEWLINE t)"

function skip_separators :: "string \<Rightarrow> nat \<Rightarrow> nat" where
  "skip_separators s p =
    (if separator_token (fst (search_next s p)) \<and> p < snd (search_next s p)
        \<and> snd (search_next s p) \<le> length s
     then skip_separators s (snd (search_next s p)) else p)"
  by pat_completeness auto
termination
  by (relation "measure (\<lambda>(s, p). length s - p)") auto

declare skip_separators.simps [simp del]

lemma skip_separators_stay:
  "\<not> separator_token (fst (search_next s p)) \<Longrightarrow> skip_separators s p = p"
  by (subst skip_separators.simps) simp

lemma skip_separators_step:
  assumes "tokenizer_ok tk" "separator_token (next_token tk)"
  shows "skip_separators (tk_text tk) (start_position tk)
       = skip_separators (tk_text tk) (after_next tk)"
proof -
  have ne: "\<not> is_special END_OF_STRING (next_token tk)"
    using assms(2)
    by (auto simp: separator_token_def is_special_def is_punctuation_def split: Token.splits)
  from after_next_bounds(2,3)[OF assms(1)] ne assms(2) show ?thesis
    by (subst skip_separators.simps) (simp add: after_next_def next_token_def)
qed

lemma not_eos:
  "is_punctuation ty t \<Longrightarrow> \<not> is_special END_OF_STRING t"
  "is_name nty t \<Longrightarrow> \<not> is_special END_OF_STRING t"
  "operator_kind_of t = Some k \<Longrightarrow> \<not> is_special END_OF_STRING t"
  "is_comment t \<Longrightarrow> \<not> is_special END_OF_STRING t"
  by (auto simp: is_punctuation_def is_name_def is_special_def is_comment_def
        operator_kind_of_def split: Token.splits)

lemma consume_step:
  assumes "tokenizer_ok tk" "inner_next tk"
  shows "consumed_to tk (snd (consume tk))"
    and "tokenizer_ok (snd (consume tk))"
    and "moved_to tk (snd (consume tk))"
    and "remaining (snd (consume tk)) < remaining tk"
proof -
  show c: "consumed_to tk (snd (consume tk))" using assms by (rule consume_consumed)
  show "tokenizer_ok (snd (consume tk))" using c by (rule consumed_toD(1))
  show "moved_to tk (snd (consume tk))" using c by (rule consumed_moved)
  have "\<not> is_special END_OF_STRING (next_token tk)" using assms(2) by (simp add: inner_next_iff)
  with assms(1) c show "remaining (snd (consume tk)) < remaining tk" by (rule consumed_remaining)
qed

lemma consume_went_step:
  assumes "tokenizer_ok tk"
  shows "went_to tk (snd (consume tk))"
    and "tokenizer_ok (snd (consume tk))"
    and "\<not> is_special END_OF_STRING (next_token tk) \<Longrightarrow> remaining (snd (consume tk)) < remaining tk"
proof -
  show "went_to tk (snd (consume tk))" using assms by (rule consume_went)
  show ok': "tokenizer_ok (snd (consume tk))" using assms by (rule consume_snd)
  assume "\<not> is_special END_OF_STRING (next_token tk)"
  with after_next_bounds(3)[OF assms] have "start_position tk < after_next tk" by simp
  moreover have "after_next tk \<le> length (tk_text tk)" using assms by (rule after_next_bounds)
  ultimately show "remaining (snd (consume tk)) < remaining tk"
    using consume_snd(2,3)[OF assms] by (simp add: remaining_def)
qed

lemma peek_step:
  assumes "tokenizer_ok tk"
  shows "same_place tk (snd (peek k tk))"
    and "tokenizer_ok (snd (peek k tk))"
    and "moved_to tk (snd (peek k tk))"
    and "remaining (snd (peek k tk)) = remaining tk"
    and "next_token (snd (peek k tk)) = next_token tk"
    and "next_token2 (snd (peek k tk)) = next_token2 tk"
    and "after_next (snd (peek k tk)) = after_next tk"
proof -
  show s: "same_place tk (snd (peek k tk))" using assms by (rule peek_same_place)
  show "tokenizer_ok (snd (peek k tk))" using s by (rule same_place_next)
  show "moved_to tk (snd (peek k tk))" using s by (rule same_place_moved)
  show "remaining (snd (peek k tk)) = remaining tk" using s by (rule same_place_next)
  show "next_token (snd (peek k tk)) = next_token tk" using s by (rule same_place_next)
  show "next_token2 (snd (peek k tk)) = next_token2 tk" using s by (rule same_place_next)
  show "after_next (snd (peek k tk)) = after_next tk" using s by (rule same_place_next)
qed

lemma moved_position:
  assumes "tokenizer_ok a" "moved_to a b"
  shows "start_position a \<le> start_position b"
  using assms(2)
proof (cases rule: moved_cases)
  case same
  then show ?thesis by (simp add: same_placeD)
next
  case consumed
  with after_next_bounds(1)[OF assms(1)] consumed_toD(3)[OF consumed] show ?thesis by simp
qed

lemma next_after_consume:
  assumes "tokenizer_ok tk"
  shows "next_token (snd (consume tk)) = next_token2 tk"
  using consume_snd(2,3)[OF assms] by (simp add: next_token_def next_token2_def)

subsection \<open>Skipping newlines and semicolons\<close>

lemma cns_loop_total:
  "tokenizer_ok tk \<Longrightarrow> token = next_token tk \<Longrightarrow> remaining tk < fuel \<Longrightarrow>
   \<exists>tk'. consume_newline_semicolons_loop fuel token tk = Some (Inr (next_token tk'), tk')
      \<and> went_to tk tk'
      \<and> \<not> is_punctuation NEWLINE (next_token tk') \<and> \<not> is_punctuation SEMICOLON (next_token tk')
      \<and> start_position tk' = skip_separators (tk_text tk) (start_position tk)"
proof (induction fuel arbitrary: token tk)
  case 0
  then show ?case by simp
next
  case (Suc n)
  show ?case
  proof (cases "is_punctuation NEWLINE token \<or> is_punctuation SEMICOLON token")
    case True
    let ?tk1 = "snd (consume tk)"
    let ?tk2 = "snd (peek 1 ?tk1)"
    note c = consume_went_step[OF Suc.prems(1)]
    note p = peek_step[OF c(2), of 1]
    have ne: "\<not> is_special END_OF_STRING (next_token tk)"
      using True Suc.prems(2) not_eos(1) by blast
    have r: "remaining ?tk2 < n" using c(3)[OF ne] p(4) Suc.prems(3) by simp
    have t: "fst (peek 1 ?tk1) = next_token ?tk2" using peek_1[OF c(2)] p(5) by simp
    from Suc.IH[OF p(2) t r] obtain tk' where
      ih: "consume_newline_semicolons_loop n (fst (peek 1 ?tk1)) ?tk2 = Some (Inr (next_token tk'), tk')"
        "went_to ?tk2 tk'"
        "\<not> is_punctuation NEWLINE (next_token tk')" "\<not> is_punctuation SEMICOLON (next_token tk')"
        "start_position tk' = skip_separators (tk_text ?tk2) (start_position ?tk2)"
      by blast
    have "went_to ?tk1 ?tk2" using c(2) p(3) by (rule moved_went)
    then have "went_to ?tk1 tk'" using ih(2) by (rule went_trans)
    with c(1) have m: "went_to tk tk'" by (rule went_trans)
    have "separator_token (next_token tk)" using True Suc.prems(2) by (auto simp: separator_token_def)
    from skip_separators_step[OF Suc.prems(1) this]
    have sk: "start_position tk' = skip_separators (tk_text tk) (start_position tk)"
      using ih(5) consume_snd(2,3)[OF Suc.prems(1)] same_placeD(2,3)[OF p(1)] by simp
    have "consume_newline_semicolons_loop (Suc n) token tk
        = consume_newline_semicolons_loop n (fst (peek 1 ?tk1)) ?tk2"
      using True by (simp add: case_prod_beta Let_def)
    with ih(1,3,4) m sk show ?thesis by auto
  next
    case False
    then have "\<not> separator_token (fst (search_next (tk_text tk) (start_position tk)))"
      using Suc.prems(2) by (simp add: separator_token_def next_token_def)
    then have "skip_separators (tk_text tk) (start_position tk) = start_position tk"
      by (rule skip_separators_stay)
    with False went_refl[OF Suc.prems(1)] Suc.prems(2) show ?thesis by auto
  qed
qed

lemma cns_total:
  assumes "tokenizer_ok tk" "remaining tk < fuel"
  shows "\<exists>tk'. consume_newline_semicolons fuel tk = Some (Inr (next_token tk'), tk')
      \<and> went_to tk tk'
      \<and> \<not> is_punctuation NEWLINE (next_token tk') \<and> \<not> is_punctuation SEMICOLON (next_token tk')
      \<and> start_position tk' = skip_separators (tk_text tk) (start_position tk)"
proof -
  let ?tk1 = "snd (peek 1 tk)"
  note p = peek_step[OF assms(1), of 1]
  have t: "fst (peek 1 tk) = next_token ?tk1" using peek_1[OF assms(1)] p(5) by simp
  have r: "remaining ?tk1 < fuel" using p(4) assms(2) by simp
  from cns_loop_total[OF p(2) t r] obtain tk' where
    l: "consume_newline_semicolons_loop fuel (fst (peek 1 tk)) ?tk1 = Some (Inr (next_token tk'), tk')"
      "went_to ?tk1 tk'"
      "\<not> is_punctuation NEWLINE (next_token tk')" "\<not> is_punctuation SEMICOLON (next_token tk')"
      "start_position tk' = skip_separators (tk_text ?tk1) (start_position ?tk1)"
    by blast
  have "went_to tk ?tk1" using assms(1) p(3) by (rule moved_went)
  then have m: "went_to tk tk'" using l(2) by (rule went_trans)
  have sk: "start_position tk' = skip_separators (tk_text tk) (start_position tk)"
    using l(5) same_placeD(2,3)[OF p(1)] by simp
  have "consume_newline_semicolons fuel tk
      = consume_newline_semicolons_loop fuel (fst (peek 1 tk)) ?tk1"
    by (simp add: consume_newline_semicolons_def case_prod_beta)
  with l(1,3,4) m sk show ?thesis by auto
qed

subsection \<open>The next standard token\<close>

lemma moved_refl: "tokenizer_ok tk \<Longrightarrow> moved_to tk tk"
  by (simp add: moved_to_def same_place_def)

lemma moved_text: "moved_to a b \<Longrightarrow> tk_text b = tk_text a"
  by (auto simp: moved_to_def same_place_def consumed_to_def)

definition gnst_post :: "Tokenizer \<Rightarrow> Tokenizer \<Rightarrow> bool" where
  "gnst_post tk tk' = (moved_to tk tk' \<and> \<not> is_comment (next_token tk')
     \<and> (if is_punctuation NEWLINE (next_token tk') then is_punctuation NEWLINE (next_token2 tk')
         else True)
     \<and> start_position tk' = skip_tokens (tk_text tk) (start_position tk))"

lemma gnst_postD:
  assumes "gnst_post tk tk'"
  shows "moved_to tk tk'" and "\<not> is_comment (next_token tk')"
    and "is_punctuation NEWLINE (next_token tk') \<Longrightarrow> is_punctuation NEWLINE (next_token2 tk')"
    and "start_position tk' = skip_tokens (tk_text tk) (start_position tk)"
    and "\<not> skip_token_at (tk_text tk') (start_position tk')"
proof -
  from assms show "moved_to tk tk'" and c: "\<not> is_comment (next_token tk')"
    and "start_position tk' = skip_tokens (tk_text tk) (start_position tk)"
    by (simp_all add: gnst_post_def)
  from assms show n: "is_punctuation NEWLINE (next_token tk') \<Longrightarrow> is_punctuation NEWLINE (next_token2 tk')"
    by (simp add: gnst_post_def split: if_splits)
  from c n show "\<not> skip_token_at (tk_text tk') (start_position tk')"
    by (auto simp: skip_token_at_iff)
qed

lemma gnst_post_here:
  assumes "tokenizer_ok tk" "\<not> is_comment (next_token tk)"
    and "is_punctuation NEWLINE (next_token tk) \<Longrightarrow> is_punctuation NEWLINE (next_token2 tk)"
    and "same_place tk tk'"
  shows "gnst_post tk tk'"
proof -
  have "\<not> skip_token_at (tk_text tk) (start_position tk)"
    using assms(2,3) by (auto simp: skip_token_at_iff)
  then have "skip_tokens (tk_text tk) (start_position tk) = start_position tk"
    by (rule skip_tokens_stay)
  with assms(2,3) same_place_next(1,3)[OF assms(4)] same_placeD(3)[OF assms(4)]
    same_place_moved[OF assms(4)]
  show ?thesis by (simp add: gnst_post_def)
qed

lemma gnst_post_step:
  assumes "tokenizer_ok a" "moved_to a b"
    and "skip_tokens (tk_text a) (start_position a) = skip_tokens (tk_text a) (start_position b)"
    and "gnst_post b c"
  shows "gnst_post a c"
proof -
  note bc = gnst_postD[OF assms(4)]
  have "moved_to a c" using assms(1,2) bc(1) by (rule moved_trans)
  moreover have "tk_text b = tk_text a" using assms(2) by (rule moved_text)
  ultimately show ?thesis using bc assms(3) by (simp add: gnst_post_def)
qed

lemma same_place_refl: "tokenizer_ok tk \<Longrightarrow> same_place tk tk"
  by (simp add: same_place_def)

lemma gnst_loop_total:
  "tokenizer_ok tk \<Longrightarrow> token = next_token tk \<Longrightarrow> remaining tk < fuel \<Longrightarrow>
   \<exists>tk' ps'. get_next_standard_token_loop fuel token tk ps = Some (Inr (next_token tk'), tk', ps')
      \<and> gnst_post tk tk'"
proof (induction fuel arbitrary: token tk ps)
  case 0
  then show ?case by simp
next
  case (Suc n)
  have second: "\<exists>tk' ps'.
      (if is_comment token1 then
         get_next_standard_token_loop n (fst (peek 1 (snd (consume tk1))))
           (snd (peek 1 (snd (consume tk1)))) (ps\<lparr>comments := comments ps @ [token1]\<rparr>)
       else Some (Inr token1, tk1, ps)) = Some (Inr (next_token tk'), tk', ps')
      \<and> gnst_post tk1 tk'"
    if ok1: "tokenizer_ok tk1" and t1: "token1 = next_token tk1" and r1: "remaining tk1 < Suc n"
      and nn: "\<not> is_punctuation NEWLINE token1" for token1 tk1
  proof (cases "is_comment token1")
    case True
    let ?tk2 = "snd (consume tk1)"
    let ?tk3 = "snd (peek 1 ?tk2)"
    have inner: "inner_next tk1" using True t1 not_stop(2) inner_next_not_stop by blast
    note c = consume_step[OF ok1 inner]
    note p = peek_step[OF c(2), of 1]
    have r: "remaining ?tk3 < n" using c(4) p(4) r1 by simp
    have t: "fst (peek 1 ?tk2) = next_token ?tk3" using peek_1[OF c(2)] p(5) by simp
    from Suc.IH[OF p(2) t r, of "ps\<lparr>comments := comments ps @ [token1]\<rparr>"] obtain tk' ps' where
      ih: "get_next_standard_token_loop n (fst (peek 1 ?tk2)) ?tk3
             (ps\<lparr>comments := comments ps @ [token1]\<rparr>) = Some (Inr (next_token tk'), tk', ps')"
        "gnst_post ?tk3 tk'"
      by blast
    have m13: "moved_to tk1 ?tk3" using ok1 c(3) p(3) by (rule moved_trans)
    have "skip_token_at (tk_text tk1) (start_position tk1)"
      using True t1 by (simp add: skip_token_at_iff)
    from skip_tokens_step[OF ok1 this] have
      "skip_tokens (tk_text tk1) (start_position tk1) = skip_tokens (tk_text tk1) (start_position ?tk3)"
      using consume_snd(3)[OF ok1] same_placeD(3)[OF p(1)] by simp
    with ok1 m13 have "gnst_post tk1 tk'" using ih(2) by (rule gnst_post_step)
    with True ih(1) show ?thesis by auto
  next
    case False
    have "gnst_post tk1 tk1"
    proof (rule gnst_post_here[OF ok1 _ _ same_place_refl[OF ok1]])
      show "\<not> is_comment (next_token tk1)" using False t1 by simp
      show "is_punctuation NEWLINE (next_token2 tk1)" if "is_punctuation NEWLINE (next_token tk1)"
        using that nn t1 by simp
    qed
    with False t1 show ?thesis by auto
  qed
  show ?case
  proof (cases "is_punctuation NEWLINE token")
    case nl: True
    let ?tka = "snd (peek 2 tk)"
    note pa = peek_step[OF Suc.prems(1), of 2]
    have t2: "fst (peek 2 tk) = next_token2 tk" using Suc.prems(1) by (rule peek_2)
    have nc: "\<not> is_comment (next_token tk)"
      using nl Suc.prems(2)
      by (auto simp: is_comment_def is_punctuation_def is_special_def split: Token.splits)
    show ?thesis
    proof (cases "is_punctuation NEWLINE (fst (peek 2 tk))")
      case True
      have "get_next_standard_token_loop (Suc n) token tk ps = Some (Inr token, ?tka, ps)"
        using nl True by (simp add: case_prod_beta)
      moreover have "token = next_token ?tka" using Suc.prems(2) pa(5) by simp
      moreover have "gnst_post tk ?tka"
      proof (rule gnst_post_here[OF Suc.prems(1) nc _ pa(1)])
        show "is_punctuation NEWLINE (next_token2 tk)" using True t2 by simp
      qed
      ultimately show ?thesis by auto
    next
      case False
      let ?tk1 = "snd (consume ?tka)"
      have inner: "inner_next ?tka"
        using nl False Suc.prems(2) pa(5,6) t2 by (simp add: inner_next_newline)
      note c = consume_step[OF pa(2) inner]
      have t1: "fst (peek 2 tk) = next_token ?tk1"
        using next_after_consume[OF pa(2)] pa(6) t2 by simp
      have r1: "remaining ?tk1 < Suc n" using c(4) pa(4) Suc.prems(3) by simp
      from second[OF c(2) t1 r1 False] obtain tk' ps' where
        s: "(if is_comment (fst (peek 2 tk)) then
         get_next_standard_token_loop n (fst (peek 1 (snd (consume ?tk1))))
           (snd (peek 1 (snd (consume ?tk1)))) (ps\<lparr>comments := comments ps @ [fst (peek 2 tk)]\<rparr>)
       else Some (Inr (fst (peek 2 tk)), ?tk1, ps)) = Some (Inr (next_token tk'), tk', ps')"
        "gnst_post ?tk1 tk'"
        by blast
      have "moved_to ?tka ?tk1" using c(3) .
      with Suc.prems(1) pa(3) have m1: "moved_to tk ?tk1" by (rule moved_trans)
      have "skip_token_at (tk_text tk) (start_position tk)"
        using nl False Suc.prems(2) t2 by (simp add: skip_token_at_iff)
      from skip_tokens_step[OF Suc.prems(1) this] have
        "skip_tokens (tk_text tk) (start_position tk) = skip_tokens (tk_text tk) (start_position ?tk1)"
        using consume_snd(3)[OF pa(2)] pa(7) by simp
      with Suc.prems(1) m1 have g: "gnst_post tk tk'" using s(2) by (rule gnst_post_step)
      have "get_next_standard_token_loop (Suc n) token tk ps =
        (if is_comment (fst (peek 2 tk)) then
         get_next_standard_token_loop n (fst (peek 1 (snd (consume ?tk1))))
           (snd (peek 1 (snd (consume ?tk1)))) (ps\<lparr>comments := comments ps @ [fst (peek 2 tk)]\<rparr>)
       else Some (Inr (fst (peek 2 tk)), ?tk1, ps))"
        using nl False by (simp add: case_prod_beta Let_def)
      with s g show ?thesis by auto
    qed
  next
    case False
    from second[OF Suc.prems(1) Suc.prems(2) _ False] Suc.prems(3) obtain tk' ps' where
      s: "(if is_comment token then
         get_next_standard_token_loop n (fst (peek 1 (snd (consume tk))))
           (snd (peek 1 (snd (consume tk)))) (ps\<lparr>comments := comments ps @ [token]\<rparr>)
       else Some (Inr token, tk, ps)) = Some (Inr (next_token tk'), tk', ps')"
        "gnst_post tk tk'"
      by (meson less_Suc_eq)
    have "get_next_standard_token_loop (Suc n) token tk ps =
        (if is_comment token then
         get_next_standard_token_loop n (fst (peek 1 (snd (consume tk))))
           (snd (peek 1 (snd (consume tk)))) (ps\<lparr>comments := comments ps @ [token]\<rparr>)
       else Some (Inr token, tk, ps))"
      using False by (simp add: case_prod_beta Let_def)
    with s show ?thesis by auto
  qed
qed

lemma gnst_total_post:
  assumes "tokenizer_ok tk" "remaining tk < fuel"
  shows "\<exists>tk' ps'. get_next_standard_token fuel tk ps = Some (Inr (next_token tk'), tk', ps')
      \<and> gnst_post tk tk'"
proof -
  let ?tk1 = "snd (peek 1 tk)"
  note p = peek_step[OF assms(1), of 1]
  have t: "fst (peek 1 tk) = next_token ?tk1" using peek_1[OF assms(1)] p(5) by simp
  have r: "remaining ?tk1 < fuel" using p(4) assms(2) by simp
  from gnst_loop_total[OF p(2) t r, of ps] obtain tk' ps' where
    l: "get_next_standard_token_loop fuel (fst (peek 1 tk)) ?tk1 ps = Some (Inr (next_token tk'), tk', ps')"
      "gnst_post ?tk1 tk'"
    by blast
  have "skip_tokens (tk_text tk) (start_position tk) = skip_tokens (tk_text tk) (start_position ?tk1)"
    using same_placeD(3)[OF p(1)] by simp
  with assms(1) p(3) have g: "gnst_post tk tk'" using l(2) by (rule gnst_post_step)
  have "get_next_standard_token fuel tk ps
      = get_next_standard_token_loop fuel (fst (peek 1 tk)) ?tk1 ps"
    by (simp add: get_next_standard_token_def case_prod_beta)
  with l g show ?thesis by auto
qed

lemma gnst_total:
  assumes "tokenizer_ok tk" "remaining tk < fuel"
  shows "\<exists>tk' ps'. get_next_standard_token fuel tk ps = Some (Inr (next_token tk'), tk', ps')
      \<and> moved_to tk tk' \<and> \<not> is_comment (next_token tk')
      \<and> (if is_punctuation NEWLINE (next_token tk') then is_punctuation NEWLINE (next_token2 tk')
          else True)"
  using gnst_total_post[OF assms, of ps] by (auto simp: gnst_post_def)

section \<open>Every run of the parser ends\<close>

text \<open>
  With four units of fuel for each character left, and a few more, every parsing function
  returns; none raises.
\<close>

subsection \<open>Expressions\<close>

lemma binop_not_stop:
  assumes "operator_kind_of t = Some kind"
    and "(case map_of operator_to_precedence kind of Some p \<Rightarrow> p | None \<Rightarrow> comma_precedence + 1)
           \<le> comma_precedence"
  shows "\<not> stop_token t"
proof
  assume "stop_token t"
  with assms(1) have "kind = Inl SEMICOLON \<or> kind = Inl NEWLINE"
    by (auto simp: stop_token_def operator_kind_of_def is_punctuation_def is_special_def
          split: Token.splits)
  then have "map_of operator_to_precedence kind = None"
    by (auto simp: operator_to_precedence_def)
  with assms(2) show False by simp
qed

lemma expression_total:
  "(\<forall>c tk ps. tokenizer_ok tk \<longrightarrow> c \<le> comma_precedence \<longrightarrow> 4 * remaining tk + 4 \<le> fuel \<longrightarrow>
      (\<exists>e tk' ps'. parse_expression fuel c tk ps = Some (Inr e, tk', ps') \<and> moved_to tk tk'))
 \<and> (\<forall>c e0 tk ps. tokenizer_ok tk \<longrightarrow> c \<le> comma_precedence \<longrightarrow> 4 * remaining tk + 3 \<le> fuel \<longrightarrow>
      (\<exists>e tk' ps'. parse_expression_loop fuel c e0 tk ps = Some (Inr e, tk', ps')
         \<and> moved_to tk tk'))
 \<and> (\<forall>tk ps. tokenizer_ok tk \<longrightarrow> 4 * remaining tk + 3 \<le> fuel \<longrightarrow>
      (\<exists>e tk' ps'. parse_non_binary_expression fuel tk ps = Some (Inr e, tk', ps')
         \<and> moved_to tk tk'))
 \<and> (\<forall>tk ps. tokenizer_ok tk \<longrightarrow> \<not> is_comment (next_token tk) \<longrightarrow> 4 * remaining tk + 2 \<le> fuel \<longrightarrow>
      (\<exists>r tk' ps'. parse_non_binary_expression_loop fuel (next_token tk) tk ps = Some (r, tk', ps')
         \<and> moved_to tk tk' \<and> (r = Inl UnknownTokenException \<or> (\<exists>e. r = Inr e))))"
proof (induction fuel)
  case 0
  show ?case by simp
next
  case (Suc n)
  note pe = Suc.IH[THEN conjunct1, rule_format]
  note pl = Suc.IH[THEN conjunct2, THEN conjunct1, rule_format]
  note pn = Suc.IH[THEN conjunct2, THEN conjunct2, THEN conjunct1, rule_format]
  note pnl = Suc.IH[THEN conjunct2, THEN conjunct2, THEN conjunct2, rule_format]
  have 1: "\<exists>e tk' ps'. parse_expression (Suc n) c tk ps = Some (Inr e, tk', ps') \<and> moved_to tk tk'"
    if ok: "tokenizer_ok tk" and cle: "c \<le> comma_precedence"
      and b: "4 * remaining tk + 4 \<le> Suc n" for c tk ps
  proof -
    from b have "4 * remaining tk + 3 \<le> n" by simp
    from pn[OF ok this, of ps] obtain e tk1 ps1 where
      n1: "parse_non_binary_expression n tk ps = Some (Inr e, tk1, ps1)" and m1: "moved_to tk tk1"
      by blast
    have ok1: "tokenizer_ok tk1" using m1 by (rule moved_ok)
    show ?thesis
    proof (cases "is_placeholder e")
      case True
      with n1 m1 show ?thesis by simp
    next
      case False
      have "4 * remaining tk1 + 3 \<le> n" using moved_remaining[OF ok m1] b by simp
      from pl[OF ok1 cle this, of e ps1] obtain e' tk2 ps2 where
        l: "parse_expression_loop n c e tk1 ps1 = Some (Inr e', tk2, ps2)" and m2: "moved_to tk1 tk2"
        by blast
      have "moved_to tk tk2" using ok m1 m2 by (rule moved_trans)
      with n1 l False show ?thesis by simp
    qed
  qed
  have 2: "\<exists>e tk' ps'. parse_expression_loop (Suc n) c e0 tk ps = Some (Inr e, tk', ps')
        \<and> moved_to tk tk'"
    if ok: "tokenizer_ok tk" and cle: "c \<le> comma_precedence"
      and b: "4 * remaining tk + 3 \<le> Suc n" for c e0 tk ps
  proof -
    from b have "remaining tk < n" by simp
    from gnst_total[OF ok this, of ps] obtain tk1 ps1 where
      g: "get_next_standard_token n tk ps = Some (Inr (next_token tk1), tk1, ps1)"
      and m1: "moved_to tk tk1"
      by blast
    have ok1: "tokenizer_ok tk1" using m1 by (rule moved_ok)
    note r1 = moved_remaining[OF ok m1]
    show ?thesis
    proof (cases "operator_kind_of (next_token tk1)")
      case None
      with g m1 show ?thesis by simp
    next
      case (Some kind)
      define bp where "bp = (case map_of operator_to_precedence kind of
                      Some p \<Rightarrow> p | None \<Rightarrow> comma_precedence + 1)"
      show ?thesis
      proof (cases "bp > c")
        case True
        with g m1 Some show ?thesis by (simp add: bp_def)
      next
        case False
        let ?tk2 = "snd (consume tk1)"
        have bple: "bp \<le> comma_precedence" using False cle by simp
        have "\<not> stop_token (next_token tk1)"
          using Some bple unfolding bp_def by (rule binop_not_stop)
        then have inner: "inner_next tk1" by (rule inner_next_not_stop)
        note c = consume_step[OF ok1 inner]
        have r2: "remaining ?tk2 < remaining tk" using c(4) r1 by simp
        then have b2: "4 * remaining ?tk2 + 4 \<le> n" using b by simp
        have "bp - 1 \<le> comma_precedence" using bple by simp
        from pe[OF c(2) this b2, of ps1] obtain e1 tk3 ps3 where
          e1: "parse_expression n (bp - 1) ?tk2 ps1 = Some (Inr e1, tk3, ps3)"
          and m3: "moved_to ?tk2 tk3"
          by blast
        have ok3: "tokenizer_ok tk3" using m3 by (rule moved_ok)
        have m13: "moved_to tk1 tk3" using ok1 c(3) m3 by (rule moved_trans)
        have m03: "moved_to tk tk3" using ok m1 m13 by (rule moved_trans)
        show ?thesis
        proof (cases "is_placeholder e1")
          case True
          with g Some False e1 m03 show ?thesis by (simp add: bp_def)
        next
          case np: False
          have "4 * remaining tk3 + 3 \<le> n" using moved_remaining[OF c(2) m3] r2 b by simp
          from pl[OF ok3 cle this, of "BinaryExpression e0 (next_token tk1) e1" ps3]
          obtain e' tk4 ps4 where
            l: "parse_expression_loop n c (BinaryExpression e0 (next_token tk1) e1) tk3 ps3
                  = Some (Inr e', tk4, ps4)" and m4: "moved_to tk3 tk4"
            by blast
          have "moved_to tk tk4" using ok m03 m4 by (rule moved_trans)
          with g Some False e1 np l show ?thesis by (simp add: bp_def)
        qed
      qed
    qed
  qed
  have 3: "\<exists>e tk' ps'. parse_non_binary_expression (Suc n) tk ps = Some (Inr e, tk', ps')
        \<and> moved_to tk tk'"
    if ok: "tokenizer_ok tk" and b: "4 * remaining tk + 3 \<le> Suc n" for tk ps
  proof -
    from b have "remaining tk < n" by simp
    from gnst_total[OF ok this, of ps] obtain tk1 ps1 where
      g: "get_next_standard_token n tk ps = Some (Inr (next_token tk1), tk1, ps1)"
      and m1: "moved_to tk tk1" and nc: "\<not> is_comment (next_token tk1)"
      by blast
    have ok1: "tokenizer_ok tk1" using m1 by (rule moved_ok)
    have "4 * remaining tk1 + 2 \<le> n" using moved_remaining[OF ok m1] b by simp
    from pnl[OF ok1 nc this, of ps1] obtain r tk2 ps2 where
      l: "parse_non_binary_expression_loop n (next_token tk1) tk1 ps1 = Some (r, tk2, ps2)"
      and m2: "moved_to tk1 tk2" and r: "r = Inl UnknownTokenException \<or> (\<exists>e. r = Inr e)"
      by blast
    have "moved_to tk tk2" using ok m1 m2 by (rule moved_trans)
    with g l r show ?thesis by auto
  qed
  have 4: "\<exists>r tk' ps'. parse_non_binary_expression_loop (Suc n) (next_token tk) tk ps
          = Some (r, tk', ps')
        \<and> moved_to tk tk' \<and> (r = Inl UnknownTokenException \<or> (\<exists>e. r = Inr e))"
    if ok: "tokenizer_ok tk" and nc: "\<not> is_comment (next_token tk)"
      and b: "4 * remaining tk + 2 \<le> Suc n" for tk ps
  proof -
    note refl = moved_refl[OF ok]
    show ?thesis
    proof (cases "is_punctuation LEFT_PAREN (next_token tk)")
      case True
      let ?tk1 = "snd (consume tk)"
      have "\<not> stop_token (next_token tk)" using True by (rule not_stop(3)) simp_all
      then have inner: "inner_next tk" by (rule inner_next_not_stop)
      note c = consume_step[OF ok inner]
      have r1: "remaining ?tk1 < remaining tk" using c(4) .
      then have b1: "4 * remaining ?tk1 + 4 \<le> n" using b by simp
      have "comma_precedence \<le> comma_precedence" by simp
      from pe[OF c(2) this b1, of ps] obtain e tk2 ps2 where
        e: "parse_expression n comma_precedence ?tk1 ps = Some (Inr e, tk2, ps2)"
        and m2: "moved_to ?tk1 tk2"
        by blast
      have ok2: "tokenizer_ok tk2" using m2 by (rule moved_ok)
      have m02: "moved_to tk tk2" using ok c(3) m2 by (rule moved_trans)
      have "remaining tk2 < n" using moved_remaining[OF c(2) m2] r1 b by simp
      from gnst_total[OF ok2 this, of ps2] obtain tk3 ps3 where
        g: "get_next_standard_token n tk2 ps2 = Some (Inr (next_token tk3), tk3, ps3)"
        and m3: "moved_to tk2 tk3"
        by blast
      have ok3: "tokenizer_ok tk3" using m3 by (rule moved_ok)
      have m03: "moved_to tk tk3" using ok m02 m3 by (rule moved_trans)
      from True obtain s l where t: "next_token tk = PunctuationToken s l LEFT_PAREN"
        by (auto simp: is_punctuation_def split: Token.splits)
      show ?thesis
      proof (cases "is_punctuation RIGHT_PAREN (next_token tk3)")
        case rp: True
        have "\<not> stop_token (next_token tk3)" using rp by (rule not_stop(3)) simp_all
        then have "inner_next tk3" by (rule inner_next_not_stop)
        from consume_step(3)[OF ok3 this] have m04: "moved_to tk (snd (consume tk3))"
          using ok m03 by (simp add: moved_trans)
        show ?thesis using e g rp m04 by (simp add: t)
      next
        case False
        then show ?thesis using e g m03 by (simp add: t)
      qed
    next
      case False
      have c3: "moved_to tk (snd (consume tk))" if "\<not> stop_token (next_token tk)"
        using consume_step(3)[OF ok inner_next_not_stop[OF that]] .
      show ?thesis
      proof (cases "next_token tk")
        case (NameToken s l ty)
        then have "\<not> stop_token (next_token tk)"
          by (simp add: stop_token_def is_punctuation_def is_special_def)
        with NameToken c3 refl show ?thesis by simp
      next
        case (NumberToken s l)
        then have "\<not> stop_token (next_token tk)"
          by (simp add: stop_token_def is_punctuation_def is_special_def)
        with NumberToken c3 show ?thesis by simp
      next
        case (PunctuationToken s l ty)
        with False refl show ?thesis by (simp add: is_punctuation_def)
      next
        case (SpecialToken s l ty e)
        show ?thesis
        proof (cases "ty = SINGLE_QUOTE_STRING \<or> ty = DOUBLE_QUOTE_STRING")
          case True
          with SpecialToken have "\<not> stop_token (next_token tk)"
            by (auto simp: stop_token_def is_punctuation_def is_special_def)
          with SpecialToken True c3 show ?thesis by auto
        next
          case False
          with SpecialToken nc refl show ?thesis
            by (auto simp: is_comment_def is_special_def)
        qed
      qed
    qed
  qed
  show ?case by (intro conjI allI impI) (meson 1 2 3 4)+
qed

lemmas parse_expression_total = expression_total[THEN conjunct1, rule_format]

subsection \<open>Clauses\<close>

lemma parse_alias_total:
  assumes ok: "tokenizer_ok tk" and b: "remaining tk < fuel"
  shows "\<exists>al tk' ps'. parse_alias fuel tk ps = Some (Inr (al, next_token tk'), tk', ps')
      \<and> moved_to tk tk'"
proof -
  from gnst_total[OF ok b, of ps] obtain tk1 ps1 where
    g1: "get_next_standard_token fuel tk ps = Some (Inr (next_token tk1), tk1, ps1)"
    and m1: "moved_to tk tk1"
    by blast
  have ok1: "tokenizer_ok tk1" using m1 by (rule moved_ok)
  note r1 = moved_remaining[OF ok m1]
  have "\<exists>tk2 ps2. (if is_name AS (next_token tk1)
                 then get_next_standard_token fuel (snd (consume tk1)) ps1
                 else Some (Inr (next_token tk1), tk1, ps1)) = Some (Inr (next_token tk2), tk2, ps2)
          \<and> moved_to tk1 tk2"
  proof (cases "is_name AS (next_token tk1)")
    case True
    have "inner_next tk1" using True not_stop(1) inner_next_not_stop by blast
    note c = consume_step[OF ok1 this]
    have "remaining (snd (consume tk1)) < fuel"
      using c(4) r1 b by simp
    from gnst_total[OF c(2) this, of ps1] obtain tk2 ps2 where
      g2: "get_next_standard_token fuel (snd (consume tk1)) ps1 = Some (Inr (next_token tk2), tk2, ps2)"
      and m2: "moved_to (snd (consume tk1)) tk2"
      by blast
    have "moved_to tk1 tk2" using ok1 c(3) m2 by (rule moved_trans)
    with True g2 show ?thesis by auto
  next
    case False
    with moved_refl[OF ok1] show ?thesis by auto
  qed
  then obtain tk2 ps2 where
    g2: "(if is_name AS (next_token tk1)
                 then get_next_standard_token fuel (snd (consume tk1)) ps1
                 else Some (Inr (next_token tk1), tk1, ps1)) = Some (Inr (next_token tk2), tk2, ps2)"
    and m2: "moved_to tk1 tk2"
    by blast
  have ok2: "tokenizer_ok tk2" using m2 by (rule moved_ok)
  have m02: "moved_to tk tk2" using ok m1 m2 by (rule moved_trans)
  note r2 = moved_remaining[OF ok m02]
  show ?thesis
  proof (cases "is_name NON_KEYWORD (next_token tk2) \<or> is_special DOUBLE_QUOTE_STRING (next_token tk2)")
    case True
    then have "\<not> stop_token (next_token tk2)" using not_stop(1) not_stop(4) by blast
    then have "inner_next tk2" by (rule inner_next_not_stop)
    note c = consume_step[OF ok2 this]
    have "remaining (snd (consume tk2)) \<le> remaining tk2"
      using moved_remaining[OF ok2 c(3)] .
    then have "remaining (snd (consume tk2)) < fuel" using r2 b by simp
    from gnst_total[OF c(2) this, of ps2] obtain tk3 ps3 where
      g3: "get_next_standard_token fuel (snd (consume tk2)) ps2 = Some (Inr (next_token tk3), tk3, ps3)"
      and m3: "moved_to (snd (consume tk2)) tk3"
      by blast
    have "moved_to tk2 tk3" using ok2 c(3) m3 by (rule moved_trans)
    with ok m02 have "moved_to tk tk3" by (rule moved_trans)
    with True g1 g2 g3 show ?thesis unfolding parse_alias_def by simp
  next
    case False
    with g1 g2 m02 show ?thesis unfolding parse_alias_def by simp
  qed
qed

lemma parse_select_loop_total:
  "tokenizer_ok tk \<Longrightarrow> 4 * remaining tk + 5 \<le> fuel \<Longrightarrow>
   \<exists>cl tk' ps'. parse_select_loop fuel ret tk ps = Some (Inr cl, tk', ps') \<and> moved_to tk tk'"
proof (induction fuel arbitrary: ret tk ps)
  case 0
  then show ?case by simp
next
  case (Suc n)
  note ok = Suc.prems(1) and b = Suc.prems(2)
  from b have "4 * remaining tk + 4 \<le> n" by simp
  have "comma_precedence - 1 \<le> comma_precedence" by simp
  from parse_expression_total[OF ok this \<open>4 * remaining tk + 4 \<le> n\<close>, of ps] obtain e tk1 ps1 where
    e: "parse_expression n (comma_precedence - 1) tk ps = Some (Inr e, tk1, ps1)"
    and m1: "moved_to tk tk1"
    by blast
  have ok1: "tokenizer_ok tk1" using m1 by (rule moved_ok)
  have "remaining tk1 < n" using moved_remaining[OF ok m1] b by simp
  from parse_alias_total[OF ok1 this, of ps1] obtain al tk2 ps2 where
    a: "parse_alias n tk1 ps1 = Some (Inr (al, next_token tk2), tk2, ps2)"
    and m2: "moved_to tk1 tk2"
    by blast
  have ok2: "tokenizer_ok tk2" using m2 by (rule moved_ok)
  have m02: "moved_to tk tk2" using ok m1 m2 by (rule moved_trans)
  show ?case
  proof (cases "is_punctuation COMMA (next_token tk2)")
    case True
    have "\<not> stop_token (next_token tk2)" using True by (rule not_stop(3)) simp_all
    then have "inner_next tk2" by (rule inner_next_not_stop)
    note c = consume_step[OF ok2 this]
    have "remaining (snd (consume tk2)) < remaining tk"
      using c(4) moved_remaining[OF ok m02] by simp
    then have "4 * remaining (snd (consume tk2)) + 5 \<le> n" using b by simp
    from Suc.IH[OF c(2) this, of "SelectClause (select_fields ret @ [SelectField e al])" ps2]
    obtain cl tk3 ps3 where
      l: "parse_select_loop n (SelectClause (select_fields ret @ [SelectField e al]))
            (snd (consume tk2)) ps2 = Some (Inr cl, tk3, ps3)"
      and m3: "moved_to (snd (consume tk2)) tk3"
      by blast
    have "moved_to tk2 tk3" using ok2 c(3) m3 by (rule moved_trans)
    with ok m02 have "moved_to tk tk3" by (rule moved_trans)
    with True e a l show ?thesis by simp
  next
    case False
    with e a m02 show ?thesis by simp
  qed
qed

lemma parse_select_total:
  assumes ok: "tokenizer_ok tk" and ns: "\<not> stop_token (next_token tk)"
    and b: "4 * remaining tk + 5 \<le> fuel"
  shows "\<exists>cl tk' ps'. parse_select fuel tk ps = Some (Inr cl, tk', ps') \<and> consumed_to tk tk'"
proof -
  note c = consume_step[OF ok inner_next_not_stop[OF ns]]
  have "4 * remaining (snd (consume tk)) + 5 \<le> fuel"
    using moved_remaining[OF ok c(3)] b by simp
  from parse_select_loop_total[OF c(2) this, of "SelectClause []" ps] obtain cl tk' ps' where
    l: "parse_select_loop fuel (SelectClause []) (snd (consume tk)) ps = Some (Inr cl, tk', ps')"
    and m: "moved_to (snd (consume tk)) tk'"
    by blast
  have "consumed_to tk tk'" using c(1) m by (rule consumed_then_moved)
  with l show ?thesis unfolding parse_select_def by simp
qed

lemma parse_from_loop_total:
  "tokenizer_ok tk \<Longrightarrow> 4 * remaining tk + 5 \<le> fuel \<Longrightarrow>
   \<exists>cl tk' ps'. parse_from_loop fuel ret tk ps = Some (Inr cl, tk', ps') \<and> moved_to tk tk'"
proof (induction fuel arbitrary: ret tk ps)
  case 0
  then show ?case by simp
next
  case (Suc n)
  note ok = Suc.prems(1) and b = Suc.prems(2)
  let ?c = "the (map_of operator_to_precedence (Inl DOT))"
  from b have "4 * remaining tk + 4 \<le> n" by simp
  have "?c \<le> comma_precedence" by (simp add: operator_to_precedence_def)
  from parse_expression_total[OF ok this \<open>4 * remaining tk + 4 \<le> n\<close>, of ps] obtain e tk1 ps1 where
    e: "parse_expression n ?c tk ps = Some (Inr e, tk1, ps1)"
    and m1: "moved_to tk tk1"
    by blast
  have ok1: "tokenizer_ok tk1" using m1 by (rule moved_ok)
  have "remaining tk1 < n" using moved_remaining[OF ok m1] b by simp
  from parse_alias_total[OF ok1 this, of ps1] obtain al tk2 ps2 where
    a: "parse_alias n tk1 ps1 = Some (Inr (al, next_token tk2), tk2, ps2)"
    and m2: "moved_to tk1 tk2"
    by blast
  have ok2: "tokenizer_ok tk2" using m2 by (rule moved_ok)
  have m02: "moved_to tk tk2" using ok m1 m2 by (rule moved_trans)
  show ?case
  proof (cases "is_punctuation COMMA (next_token tk2)")
    case True
    have "\<not> stop_token (next_token tk2)" using True by (rule not_stop(3)) simp_all
    then have "inner_next tk2" by (rule inner_next_not_stop)
    note c = consume_step[OF ok2 this]
    have "remaining (snd (consume tk2)) < remaining tk"
      using c(4) moved_remaining[OF ok m02] by simp
    then have "4 * remaining (snd (consume tk2)) + 5 \<le> n" using b by simp
    from Suc.IH[OF c(2) this, of "FromClause (from_fields ret @ [FromField e al])" ps2]
    obtain cl tk3 ps3 where
      l: "parse_from_loop n (FromClause (from_fields ret @ [FromField e al]))
            (snd (consume tk2)) ps2 = Some (Inr cl, tk3, ps3)"
      and m3: "moved_to (snd (consume tk2)) tk3"
      by blast
    have "moved_to tk2 tk3" using ok2 c(3) m3 by (rule moved_trans)
    with ok m02 have "moved_to tk tk3" by (rule moved_trans)
    with True e a l show ?thesis by simp
  next
    case False
    with e a m02 show ?thesis by simp
  qed
qed

lemma parse_from_total:
  assumes ok: "tokenizer_ok tk" and ns: "\<not> stop_token (next_token tk)"
    and b: "4 * remaining tk + 5 \<le> fuel"
  shows "\<exists>cl tk' ps'. parse_from fuel tk ps = Some (Inr cl, tk', ps') \<and> consumed_to tk tk'"
proof -
  note c = consume_step[OF ok inner_next_not_stop[OF ns]]
  have "4 * remaining (snd (consume tk)) + 5 \<le> fuel"
    using moved_remaining[OF ok c(3)] b by simp
  from parse_from_loop_total[OF c(2) this, of "FromClause []" ps] obtain cl tk' ps' where
    l: "parse_from_loop fuel (FromClause []) (snd (consume tk)) ps = Some (Inr cl, tk', ps')"
    and m: "moved_to (snd (consume tk)) tk'"
    by blast
  have "consumed_to tk tk'" using c(1) m by (rule consumed_then_moved)
  with l show ?thesis unfolding parse_from_def by simp
qed

lemma parse_where_total:
  assumes ok: "tokenizer_ok tk" and ns: "\<not> stop_token (next_token tk)"
    and b: "4 * remaining tk + 4 \<le> fuel"
  shows "\<exists>cl tk' ps'. parse_where fuel tk ps = Some (Inr cl, tk', ps') \<and> consumed_to tk tk'"
proof -
  note c = consume_step[OF ok inner_next_not_stop[OF ns]]
  have b': "4 * remaining (snd (consume tk)) + 4 \<le> fuel"
    using moved_remaining[OF ok c(3)] b by simp
  have "comma_precedence - 1 \<le> comma_precedence" by simp
  from parse_expression_total[OF c(2) this b', of ps] obtain e tk' ps' where
    l: "parse_expression fuel (comma_precedence - 1) (snd (consume tk)) ps = Some (Inr e, tk', ps')"
    and m: "moved_to (snd (consume tk)) tk'"
    by blast
  have "consumed_to tk tk'" using c(1) m by (rule consumed_then_moved)
  with l show ?thesis unfolding parse_where_def by simp
qed

subsection \<open>Statements\<close>

definition keyword_token :: "Token \<Rightarrow> bool" where
  "keyword_token t = (is_name SELECT t \<or> is_name FROM t \<or> is_name WHERE t)"

lemma keyword_not_stop: "keyword_token t \<Longrightarrow> \<not> stop_token t"
  by (auto simp: keyword_token_def dest: not_stop(1))

lemma parse_statement_try_total:
  assumes ok: "tokenizer_ok tk" and b: "4 * remaining tk + 5 \<le> fuel"
  shows "\<exists>r tk' ps'. parse_statement_try fuel (next_token tk) tk ps = Some (r, tk', ps')
     \<and> ((r = Inl UnknownTokenException \<and> tk' = tk \<and> ps' = ps \<and> \<not> stop_token (next_token tk)
          \<and> \<not> keyword_token (next_token tk))
        \<or> (r = Inr False \<and> consumed_to tk tk' \<and> keyword_token (next_token tk))
        \<or> (r = Inr True \<and> went_to tk tk' \<and> stop_token (next_token tk)
            \<and> ps' = ps\<lparr>st_length := end_idx_of_last_consumed_token tk - st_start ps\<rparr>
            \<and> ((is_punctuation NEWLINE (next_token tk) \<longrightarrow> is_punctuation NEWLINE (next_token2 tk))
                 \<longrightarrow> skip_separators (tk_text tk) (start_position tk)
                      = skip_separators (tk_text tk) (start_position tk'))))"
proof (cases "next_token tk")
  case (NameToken s l ty)
  then have ns: "\<not> stop_token (next_token tk)"
    by (simp add: stop_token_def is_punctuation_def is_special_def)
  from NameToken have kw: "keyword_token (next_token tk) \<longleftrightarrow> ty = SELECT \<or> ty = FROM \<or> ty = WHERE"
    by (simp add: keyword_token_def is_name_def)
  from b have b4: "4 * remaining tk + 4 \<le> fuel" by simp
  show ?thesis
  proof (cases "ty = SELECT")
    case True
    from parse_select_total[OF ok ns b, of ps] obtain cl tk' ps' where
      "parse_select fuel tk ps = Some (Inr cl, tk', ps')" "consumed_to tk tk'" by blast
    with NameToken True kw show ?thesis unfolding parse_statement_try_def by simp
  next
    case ns1: False
    show ?thesis
    proof (cases "ty = FROM")
      case True
      from parse_from_total[OF ok ns b, of ps] obtain cl tk' ps' where
        "parse_from fuel tk ps = Some (Inr cl, tk', ps')" "consumed_to tk tk'" by blast
      with NameToken True kw show ?thesis unfolding parse_statement_try_def by simp
    next
      case ns2: False
      show ?thesis
      proof (cases "ty = WHERE")
        case True
        from parse_where_total[OF ok ns b4, of ps] obtain cl tk' ps' where
          "parse_where fuel tk ps = Some (Inr cl, tk', ps')" "consumed_to tk tk'" by blast
        with NameToken True kw show ?thesis unfolding parse_statement_try_def by simp
      next
        case False
        with NameToken ns ns1 ns2 kw show ?thesis unfolding parse_statement_try_def by simp
      qed
    qed
  qed
next
  case (NumberToken s l)
  then show ?thesis unfolding parse_statement_try_def
    by (simp add: stop_token_def is_punctuation_def is_special_def keyword_token_def is_name_def)
next
  case (PunctuationToken s l ty)
  note c = consume_went_step[OF ok]
  note c2 = consume_went_step[OF c(2)]
  have m2: "went_to tk (snd (consume (snd (consume tk))))"
    using c(1) c2(1) by (rule went_trans)
  note cs = consume_snd[OF ok]
  note cs2 = consume_snd[OF c(2)]
  have sk1: "skip_separators (tk_text tk) (start_position tk)
           = skip_separators (tk_text tk) (start_position (snd (consume tk)))"
    if "ty = SEMICOLON \<or> ty = NEWLINE"
  proof -
    have "separator_token (next_token tk)"
      using that PunctuationToken by (auto simp: separator_token_def is_punctuation_def)
    from skip_separators_step[OF ok this] cs(3) show ?thesis by simp
  qed
  have sk2: "skip_separators (tk_text tk) (start_position tk)
           = skip_separators (tk_text tk) (start_position (snd (consume (snd (consume tk)))))"
    if "ty = NEWLINE" "is_punctuation NEWLINE (next_token2 tk)"
  proof -
    have "separator_token (next_token (snd (consume tk)))"
      using that(2) next_after_consume[OF ok] by (simp add: separator_token_def)
    from skip_separators_step[OF c(2) this] cs2(3) cs(2) sk1 that(1) show ?thesis by simp
  qed
  from PunctuationToken c(1) m2 sk1 sk2 show ?thesis unfolding parse_statement_try_def
    by (simp add: stop_token_def is_punctuation_def is_special_def keyword_token_def is_name_def)
next
  case (SpecialToken s l ty e)
  with went_refl[OF ok] show ?thesis unfolding parse_statement_try_def
    by (simp add: stop_token_def is_punctuation_def is_special_def keyword_token_def is_name_def)
qed

lemma gnst_start:
  assumes "get_next_standard_token fuel tk ps = Some (r, tk', ps')"
  shows "st_start ps' = st_start ps" and "unknowns ps' = unknowns ps"
    and "n_clauses ps' = n_clauses ps"
  using no_comments_fields[OF gnst_frame[OF assms]] n_clauses_frame[OF gnst_frame[OF assms]]
  by simp_all

lemma try_clause_frame:
  assumes "parse_statement_try fuel token tk ret = Some (Inr False, tk', ret')"
  shows "st_start ret' = st_start ret" and "unknowns ret' = unknowns ret"
    and "n_clauses ret' = Suc (n_clauses ret)"
proof -
  from parse_statement_try_props[OF assms] obtain ps' where
    f: "no_comments ps' = no_comments ret" and
    r: "(\<exists>c. ret' = ps'\<lparr>selects := selects ps' @ [c]\<rparr>)
          \<or> (\<exists>c. ret' = ps'\<lparr>froms := froms ps' @ [c]\<rparr>)
          \<or> (\<exists>c. ret' = ps'\<lparr>wheres := wheres ps' @ [c]\<rparr>)"
    by auto
  from r have "st_start ret' = st_start ps' \<and> unknowns ret' = unknowns ps'
      \<and> n_clauses ret' = Suc (n_clauses ps')"
    by (auto simp: n_clauses_def)
  with no_comments_fields[OF f] n_clauses_frame[OF f]
  show "st_start ret' = st_start ret" and "unknowns ret' = unknowns ret"
    and "n_clauses ret' = Suc (n_clauses ret)" by simp_all
qed

lemma scan_while_idem: "scan_while f s (scan_while f s i) = scan_while f s i"
proof (induction f s i rule: scan_while.induct)
  case (1 f s i)
  show ?case
  proof (cases "i < length s \<and> f (s ! i)")
    case True
    then have "scan_while f s i = scan_while f s (i + 1)" by (subst scan_while.simps) simp
    with 1 True show ?thesis by simp
  next
    case False
    then have "scan_while f s i = i" by (subst scan_while.simps) auto
    then show ?thesis by simp
  qed
qed

lemma search_next_skip_ws: "search_next s (skip_ws s p) = search_next s p"
  by (simp add: search_next_def skip_ws_def scan_while_idem)

lemma tokens_between_skip_ws:
  assumes "tokens_between s p b" "p < b" "p \<le> length s"
  shows "tokens_between s (skip_ws s p) b"
proof -
  from assms(1,2) have i: "inner_token_at s p" and r: "tokens_between s (snd (search_next s p)) b"
    by (subst (asm) tokens_between.simps, simp split: if_splits)+
  have "skip_ws s p \<le> length s" using assms(3) by (rule skip_ws_bounds)
  moreover have "inner_token_at s (skip_ws s p)"
    using i by (simp add: inner_token_at_def search_next_skip_ws)
  moreover have "tokens_between s (snd (search_next s (skip_ws s p))) b"
    using r by (simp add: search_next_skip_ws)
  ultimately show ?thesis by (rule tokens_between_step)
qed

subsection \<open>One round of the loop of a statement\<close>

text \<open>What the \<^verbatim>\<open>except\<close> clause of \<^verbatim>\<open>parse_statement\<close> does to the statement.\<close>

definition record_unknown :: "bool \<Rightarrow> Token \<Rightarrow> Statement \<Rightarrow> Statement" where
  "record_unknown prev token ret =
    (if prev then
       ret\<lparr>unknowns := unknowns ret @
          [\<lparr>us_start = start token, us_length = tlength token, first_token = token\<rparr>]\<rparr>
     else
       ret\<lparr>unknowns := butlast (unknowns ret) @
          [(last (unknowns ret))
             \<lparr>us_length := start token + tlength token - us_start (last (unknowns ret))\<rparr>]\<rparr>)"

lemma parse_statement_loop_step:
  assumes ok: "tokenizer_ok tk" and b: "4 * remaining tk + 6 \<le> Suc n"
    and pu: "prev \<or> unknowns ret \<noteq> []"
  obtains
    (stop) tk1 ret1 tk2 where
      "get_next_standard_token n tk ret = Some (Inr (next_token tk1), tk1, ret1)"
      "gnst_post tk tk1" "stop_token (next_token tk1)" "went_to tk1 tk2"
      "parse_statement_loop (Suc n) prev tk ret =
         Some (Inr (ret1\<lparr>st_length := end_idx_of_last_consumed_token tk1 - st_start ret1\<rparr>), tk2,
               ret1\<lparr>st_length := end_idx_of_last_consumed_token tk1 - st_start ret1\<rparr>)"
      "skip_separators (tk_text tk1) (start_position tk1)
         = skip_separators (tk_text tk1) (start_position tk2)"
  | (clause) tk1 ret1 tk2 ret2 where
      "get_next_standard_token n tk ret = Some (Inr (next_token tk1), tk1, ret1)"
      "gnst_post tk tk1" "keyword_token (next_token tk1)" "consumed_to tk1 tk2"
      "parse_statement_try n (next_token tk1) tk1 ret1 = Some (Inr False, tk2, ret2)"
      "parse_statement_loop (Suc n) prev tk ret = parse_statement_loop n True tk2 ret2"
  | (unknown) tk1 ret1 where
      "get_next_standard_token n tk ret = Some (Inr (next_token tk1), tk1, ret1)"
      "gnst_post tk tk1" "\<not> stop_token (next_token tk1)" "\<not> keyword_token (next_token tk1)"
      "parse_statement_loop (Suc n) prev tk ret =
         parse_statement_loop n False (snd (consume tk1)) (record_unknown prev (next_token tk1) ret1)"
proof -
  from b have "remaining tk < n" by simp
  from gnst_total_post[OF ok this, of ret] obtain tk1 ret1 where
    g: "get_next_standard_token n tk ret = Some (Inr (next_token tk1), tk1, ret1)"
    and gp: "gnst_post tk tk1"
    by blast
  note m1 = gnst_postD(1)[OF gp]
  have ok1: "tokenizer_ok tk1" using m1 by (rule moved_ok)
  have b1: "4 * remaining tk1 + 5 \<le> n" using moved_remaining[OF ok m1] b by simp
  from parse_statement_try_total[OF ok1 b1, of ret1] obtain r tk2 ret2 where
    t: "parse_statement_try n (next_token tk1) tk1 ret1 = Some (r, tk2, ret2)"
    and rc: "(r = Inl UnknownTokenException \<and> tk2 = tk1 \<and> ret2 = ret1 \<and> \<not> stop_token (next_token tk1)
          \<and> \<not> keyword_token (next_token tk1))
        \<or> (r = Inr False \<and> consumed_to tk1 tk2 \<and> keyword_token (next_token tk1))
        \<or> (r = Inr True \<and> went_to tk1 tk2 \<and> stop_token (next_token tk1)
            \<and> ret2 = ret1\<lparr>st_length := end_idx_of_last_consumed_token tk1 - st_start ret1\<rparr>
            \<and> ((is_punctuation NEWLINE (next_token tk1) \<longrightarrow> is_punctuation NEWLINE (next_token2 tk1))
                 \<longrightarrow> skip_separators (tk_text tk1) (start_position tk1)
                      = skip_separators (tk_text tk1) (start_position tk2)))"
    by blast
  from rc consider
      (u) "r = Inl UnknownTokenException" "tk2 = tk1" "ret2 = ret1" "\<not> stop_token (next_token tk1)"
        "\<not> keyword_token (next_token tk1)"
    | (c) "r = Inr False" "consumed_to tk1 tk2" "keyword_token (next_token tk1)"
    | (s) "r = Inr True" "went_to tk1 tk2" "stop_token (next_token tk1)"
        "ret2 = ret1\<lparr>st_length := end_idx_of_last_consumed_token tk1 - st_start ret1\<rparr>"
        "skip_separators (tk_text tk1) (start_position tk1)
           = skip_separators (tk_text tk1) (start_position tk2)"
    using gnst_postD(3)[OF gp] by blast
  then show thesis
  proof cases
    case u
    have "unknowns ret1 \<noteq> []" if "\<not> prev" using that pu gnst_start(2)[OF g] by simp
    then have "parse_statement_loop (Suc n) prev tk ret =
         parse_statement_loop n False (snd (consume tk1)) (record_unknown prev (next_token tk1) ret1)"
      using g t u(1,2,3) by (simp add: record_unknown_def Let_def)
    with g gp u(4,5) show thesis by (rule unknown)
  next
    case c
    have "parse_statement_loop (Suc n) prev tk ret = parse_statement_loop n True tk2 ret2"
      using g t c(1) by simp
    with g gp c(3,2) t[unfolded c(1)] show thesis by (rule clause)
  next
    case s
    have "parse_statement_loop (Suc n) prev tk ret =
         Some (Inr (ret1\<lparr>st_length := end_idx_of_last_consumed_token tk1 - st_start ret1\<rparr>), tk2,
               ret1\<lparr>st_length := end_idx_of_last_consumed_token tk1 - st_start ret1\<rparr>)"
      using g t s(1,4) by simp
    with g gp s(3,2) show thesis using s(5) by (rule stop)
  qed
qed

subsection \<open>The span of a statement\<close>

text \<open>\<open>delimiter_at s p\<close>: the token after position \<open>p\<close> ends a statement (a semicolon, the end
  of the text, or a newline that a newline follows). \<open>statement_token_at s p\<close>: the token at
  \<open>p\<close> is not a semicolon, a newline or the end of the text. \<open>delimited s st\<close>: the span of \<open>st\<close>
  starts at such a token, runs over tokens none of which ends a statement, and is followed by
  one that does.\<close>

definition delimiter_at :: "string \<Rightarrow> nat \<Rightarrow> bool" where
  "delimiter_at s p =
    (let t = fst (search_next s p); t2 = fst (search_next s (snd (search_next s p)))
     in is_punctuation SEMICOLON t \<or> is_special END_OF_STRING t
        \<or> (is_punctuation NEWLINE t \<and> is_punctuation NEWLINE t2))"

definition statement_token_at :: "string \<Rightarrow> nat \<Rightarrow> bool" where
  "statement_token_at s p =
    (let t = fst (search_next s p)
     in \<not> is_punctuation SEMICOLON t \<and> \<not> is_punctuation NEWLINE t
        \<and> \<not> is_special END_OF_STRING t)"

definition delimited :: "string \<Rightarrow> Statement \<Rightarrow> bool" where
  "delimited s st = (statement_token_at s (nat (st_start st))
     \<and> tokens_between s (nat (st_start st)) (nat (st_start st + st_length st))
     \<and> delimiter_at s (nat (st_start st + st_length st)))"

definition in_statement :: "Tokenizer \<Rightarrow> Statement \<Rightarrow> bool" where
  "in_statement tk ret = (synced tk \<and> 0 \<le> st_start ret \<and> st_start ret \<le> int (start_position tk)
     \<and> tokens_between (tk_text tk) (nat (st_start ret)) (start_position tk))"

definition at_statement_start :: "Tokenizer \<Rightarrow> Statement \<Rightarrow> bool" where
  "at_statement_start tk ret = (st_start ret = start (next_token tk) \<and> \<not> stop_token (next_token tk))"

lemma in_statement_start: "st_start ret' = st_start ret \<Longrightarrow> in_statement tk ret' = in_statement tk ret"
  by (simp add: in_statement_def)

lemma start_next_token:
  assumes "tokenizer_ok tk"
  shows "start (next_token tk) = int (skip_ws (tk_text tk) (start_position tk))"
proof -
  have le: "start_position tk \<le> length (tk_text tk)" using assms by (simp add: tokenizer_ok_def)
  have "search_next (tk_text tk) (start_position tk) = (next_token tk, after_next tk)"
    by (simp add: next_token_def after_next_def)
  from search_next_props(1)[OF le this] show ?thesis .
qed

lemma after_gnst:
  assumes ok: "tokenizer_ok tk" and m: "moved_to tk tk1"
    and pre: "in_statement tk ret \<or> at_statement_start tk ret"
  shows "in_statement tk1 ret \<or> (same_place tk tk1 \<and> at_statement_start tk1 ret)"
  using m
proof (cases rule: moved_cases)
  case same
  note s = same_place_next[OF same] same_placeD[OF same]
  from pre show ?thesis
  proof
    assume "in_statement tk ret"
    then have "in_statement tk1 ret" using s(5) s(8) s(9) by (simp add: in_statement_def)
    then show ?thesis ..
  next
    assume "at_statement_start tk ret"
    then show ?thesis using same s(1) by (simp add: at_statement_start_def)
  qed
next
  case consumed
  note c = consumed_toD[OF consumed]
  note an = after_next_bounds[OF ok]
  from pre have "in_statement tk1 ret"
  proof
    assume i: "in_statement tk ret"
    then have "tokens_between (tk_text tk) (nat (st_start ret)) (start_position tk1)"
      using c(5) by (auto simp: in_statement_def intro: tokens_between_trans)
    with i c an(1) show ?thesis by (simp add: in_statement_def)
  next
    assume a: "at_statement_start tk ret"
    then have ne: "\<not> is_special END_OF_STRING (next_token tk)"
      by (simp add: at_statement_start_def stop_token_def)
    have le: "start_position tk \<le> length (tk_text tk)" using ok by (simp add: tokenizer_ok_def)
    have st: "st_start ret = int (skip_ws (tk_text tk) (start_position tk))"
      using a start_next_token[OF ok] by (simp add: at_statement_start_def)
    have "start_position tk < start_position tk1" using an(3)[OF ne] c(3) by simp
    with c(5) have "tokens_between (tk_text tk) (skip_ws (tk_text tk) (start_position tk))
        (start_position tk1)"
      using le by (rule tokens_between_skip_ws)
    moreover have "st_start ret \<le> int (start_position tk1)"
      using a an(5) c(3) by (simp add: at_statement_start_def)
    ultimately show ?thesis using c st by (simp add: in_statement_def)
  qed
  then show ?thesis ..
qed

lemma after_consumed:
  assumes ok1: "tokenizer_ok tk1" and c: "consumed_to tk1 tk2"
    and ns: "\<not> stop_token (next_token tk1)"
    and pre: "in_statement tk1 ret \<or> (same_place tk tk1 \<and> at_statement_start tk1 ret)"
  shows "in_statement tk2 ret"
proof -
  have "moved_to tk1 tk2" using c by (rule consumed_moved)
  from after_gnst[OF ok1 this, of ret] pre
  have "in_statement tk2 ret \<or> (same_place tk1 tk2 \<and> at_statement_start tk2 ret)" by auto
  moreover have "\<not> same_place tk1 tk2"
  proof
    assume "same_place tk1 tk2"
    then have "start_position tk2 = start_position tk1" by (rule same_placeD)
    moreover have "start_position tk1 < after_next tk1"
      using ok1 not_stop_not_eos[OF ns] by (rule after_next_bounds(3))
    ultimately show False using consumed_toD(3)[OF c] by simp
  qed
  ultimately show ?thesis by simp
qed

lemma parse_statement_loop_total:
  "tokenizer_ok tk \<Longrightarrow> 4 * remaining tk + 6 \<le> fuel \<Longrightarrow> prev \<or> unknowns ret \<noteq> [] \<Longrightarrow>
   in_statement tk ret \<or> at_statement_start tk ret \<Longrightarrow>
   \<exists>st tk' ret'. parse_statement_loop fuel prev tk ret = Some (Inr st, tk', ret')
     \<and> went_to tk tk'
     \<and> (if stop_token (next_token tk) then True else after_next tk \<le> start_position tk')
     \<and> st_start st = st_start ret \<and> 0 \<le> st_start st \<and> 0 \<le> st_length st
     \<and> st_start st + st_length st \<le> int (start_position tk')
     \<and> tokens_between (tk_text tk) (nat (st_start st)) (nat (st_start st + st_length st))
     \<and> delimiter_at (tk_text tk) (nat (st_start st + st_length st))
     \<and> skip_separators (tk_text tk) (nat (st_start st + st_length st))
         = skip_separators (tk_text tk) (start_position tk')"
proof (induction fuel arbitrary: prev tk ret)
  case 0
  then show ?case by simp
next
  case (Suc n)
  note ok = Suc.prems(1) and b = Suc.prems(2) and pu = Suc.prems(3) and pre = Suc.prems(4)
  from ok b pu show ?case
  proof (cases rule: parse_statement_loop_step)
    case (stop tk1 ret1 tk2)
    note m1 = gnst_postD(1)[OF stop(2)]
    note f1 = gnst_start[OF stop(1)]
    have ok1: "tokenizer_ok tk1" using m1 by (rule moved_ok)
    note tx1 = moved_text[OF m1]
    from after_gnst[OF ok m1 pre] stop(3) have i: "in_statement tk1 ret"
      by (auto simp: at_statement_start_def)
    let ?st = "ret1\<lparr>st_length := end_idx_of_last_consumed_token tk1 - st_start ret1\<rparr>"
    have l: "st_start ?st + st_length ?st = int (start_position tk1)"
      using i by (simp add: in_statement_def synced_def)
    have w: "went_to tk tk2" using moved_went[OF ok m1] stop(4) by (rule went_trans)
    have p2: "start_position tk1 \<le> start_position tk2" using stop(4) by (rule went_toD)
    have an: "after_next tk \<le> start_position tk2" if "\<not> stop_token (next_token tk)"
      using m1
    proof (cases rule: moved_cases)
      case same
      with that stop(3) same_place_next(1)[OF same] show ?thesis by simp
    next
      case consumed
      with p2 consumed_toD(3)[OF consumed] show ?thesis by simp
    qed
    have d: "delimiter_at (tk_text tk) (start_position tk1)"
      using stop(3) gnst_postD(3)[OF stop(2)] tx1
      by (auto simp: delimiter_at_def stop_token_def next_token_def next_token2_def after_next_def)
    have "st_start ?st = st_start ret" using f1 by simp
    moreover have "0 \<le> st_start ?st" "0 \<le> st_length ?st"
      using i f1 by (simp_all add: in_statement_def synced_def)
    moreover have "tokens_between (tk_text tk) (nat (st_start ?st)) (nat (st_start ?st + st_length ?st))"
      unfolding l using i f1 tx1 by (simp add: in_statement_def)
    moreover have "delimiter_at (tk_text tk) (nat (st_start ?st + st_length ?st))"
      unfolding l using d by simp
    moreover have "st_start ?st + st_length ?st \<le> int (start_position tk2)"
      unfolding l using p2 by simp
    moreover have "skip_separators (tk_text tk) (nat (st_start ?st + st_length ?st))
         = skip_separators (tk_text tk) (start_position tk2)"
      unfolding l using stop(6) tx1 by simp
    ultimately show ?thesis using stop(5) w an by auto
  next
    case (clause tk1 ret1 tk2 ret2)
    note m1 = gnst_postD(1)[OF clause(2)]
    note f1 = gnst_start[OF clause(1)]
    note f2 = try_clause_frame[OF clause(5)]
    have ok1: "tokenizer_ok tk1" using m1 by (rule moved_ok)
    have ok2: "tokenizer_ok tk2" using clause(4) by (rule consumed_toD)
    have tx: "tk_text tk2 = tk_text tk"
      using moved_text[OF m1] consumed_toD(2)[OF clause(4)] by simp
    have ns: "\<not> stop_token (next_token tk1)" using clause(3) by (rule keyword_not_stop)
    have b2: "4 * remaining tk2 + 6 \<le> n"
      using consumed_remaining[OF ok1 clause(4) not_stop_not_eos[OF ns]]
        moved_remaining[OF ok m1] b by simp
    have i2: "in_statement tk2 ret" using ok1 clause(4) ns after_gnst[OF ok m1 pre]
      by (rule after_consumed)
    then have pre2: "in_statement tk2 ret2 \<or> at_statement_start tk2 ret2"
      using f1 f2 by (simp add: in_statement_def)
    have u2: "True \<or> unknowns ret2 \<noteq> []" by simp
    from Suc.IH[OF ok2 b2 u2 pre2] obtain st tk' ret' where
      ih: "parse_statement_loop n True tk2 ret2 = Some (Inr st, tk', ret')"
        "went_to tk2 tk'" "st_start st = st_start ret2" "0 \<le> st_start st" "0 \<le> st_length st"
        "st_start st + st_length st \<le> int (start_position tk')"
        "tokens_between (tk_text tk2) (nat (st_start st)) (nat (st_start st + st_length st))"
        "delimiter_at (tk_text tk2) (nat (st_start st + st_length st))"
        "skip_separators (tk_text tk2) (nat (st_start st + st_length st))
         = skip_separators (tk_text tk2) (start_position tk')"
      by blast
    have c02: "consumed_to tk tk2" using ok m1 clause(4) by (rule moved_then_consumed)
    have w: "went_to tk tk'" using moved_went[OF ok consumed_moved[OF c02]] ih(2) by (rule went_trans)
    have an: "after_next tk \<le> start_position tk'"
      using consumed_toD(3)[OF c02] went_toD(3)[OF ih(2)] by simp
    show ?thesis using ih clause(6) w an f1 f2 tx by simp
  next
    case (unknown tk1 ret1)
    note m1 = gnst_postD(1)[OF unknown(2)]
    note f1 = gnst_start[OF unknown(1)]
    have ok1: "tokenizer_ok tk1" using m1 by (rule moved_ok)
    let ?tk3 = "snd (consume tk1)"
    let ?ret3 = "record_unknown prev (next_token tk1) ret1"
    note c = consume_step[OF ok1 inner_next_not_stop[OF unknown(3)]]
    have tx: "tk_text ?tk3 = tk_text tk"
      using moved_text[OF m1] consumed_toD(2)[OF c(1)] by simp
    have b3: "4 * remaining ?tk3 + 6 \<le> n" using c(4) moved_remaining[OF ok m1] b by simp
    have u3: "False \<or> unknowns ?ret3 \<noteq> []" by (simp add: record_unknown_def)
    have s3: "st_start ?ret3 = st_start ret" using f1 by (simp add: record_unknown_def)
    have "in_statement ?tk3 ret" using ok1 c(1) unknown(3) after_gnst[OF ok m1 pre]
      by (rule after_consumed)
    then have pre3: "in_statement ?tk3 ?ret3 \<or> at_statement_start ?tk3 ?ret3"
      using s3 by (simp add: in_statement_def)
    from Suc.IH[OF c(2) b3 u3 pre3] obtain st tk' ret' where
      ih: "parse_statement_loop n False ?tk3 ?ret3 = Some (Inr st, tk', ret')"
        "went_to ?tk3 tk'" "st_start st = st_start ?ret3" "0 \<le> st_start st" "0 \<le> st_length st"
        "st_start st + st_length st \<le> int (start_position tk')"
        "tokens_between (tk_text ?tk3) (nat (st_start st)) (nat (st_start st + st_length st))"
        "delimiter_at (tk_text ?tk3) (nat (st_start st + st_length st))"
        "skip_separators (tk_text ?tk3) (nat (st_start st + st_length st))
         = skip_separators (tk_text ?tk3) (start_position tk')"
      by blast
    have c03: "consumed_to tk ?tk3" using ok m1 c(1) by (rule moved_then_consumed)
    have w: "went_to tk tk'" using moved_went[OF ok consumed_moved[OF c03]] ih(2) by (rule went_trans)
    have an: "after_next tk \<le> start_position tk'"
      using consumed_toD(3)[OF c03] went_toD(3)[OF ih(2)] by simp
    show ?thesis using ih unknown(5) w an s3 tx by simp
  qed
qed

lemma parse_statement_total:
  assumes ok: "tokenizer_ok tk" and ns: "\<not> stop_token (next_token tk)"
    and b: "4 * remaining tk + 6 \<le> fuel"
  shows "\<exists>st tk'. parse_statement fuel tk = Some (Inr st, tk') \<and> went_to tk tk'
     \<and> start_position tk < start_position tk'
     \<and> int (start_position tk) \<le> st_start st \<and> 0 \<le> st_length st
     \<and> st_start st + st_length st \<le> int (start_position tk')
     \<and> delimited (tk_text tk) st
     \<and> st_start st = int (skip_ws (tk_text tk) (start_position tk))
     \<and> skip_separators (tk_text tk) (nat (st_start st + st_length st))
         = skip_separators (tk_text tk) (start_position tk')"
proof -
  let ?tk1 = "snd (peek 1 tk)"
  let ?token = "fst (peek 1 tk)"
  let ?ret = "Statement_init (start ?token) (tlength ?token)"
  note p = peek_step[OF ok, of 1]
  have t: "?token = next_token ?tk1" using peek_1[OF ok] p(5) by simp
  have b1: "4 * remaining ?tk1 + 6 \<le> fuel" using p(4) b by simp
  have u: "True \<or> unknowns ?ret \<noteq> []" by simp
  have ns1: "\<not> stop_token (next_token ?tk1)" using ns p(5) by simp
  have pre: "in_statement ?tk1 ?ret \<or> at_statement_start ?tk1 ?ret"
    using ns1 t by (simp add: Statement_init_def at_statement_start_def)
  from parse_statement_loop_total[OF p(2) b1 u pre] ns1 obtain st tk' ret' where
    l: "parse_statement_loop fuel True ?tk1 ?ret = Some (Inr st, tk', ret')"
      "went_to ?tk1 tk'" "after_next ?tk1 \<le> start_position tk'"
      "st_start st = st_start ?ret" "0 \<le> st_length st"
      "st_start st + st_length st \<le> int (start_position tk')"
      "tokens_between (tk_text ?tk1) (nat (st_start st)) (nat (st_start st + st_length st))"
      "delimiter_at (tk_text ?tk1) (nat (st_start st + st_length st))"
      "skip_separators (tk_text ?tk1) (nat (st_start st + st_length st))
         = skip_separators (tk_text ?tk1) (start_position tk')"
    by auto
  have tx: "tk_text ?tk1 = tk_text tk" using p(1) by (rule same_placeD)
  have w: "went_to tk tk'" using moved_went[OF ok p(3)] l(2) by (rule went_trans)
  have lt: "start_position tk < start_position tk'"
    using after_next_bounds(3)[OF ok not_stop_not_eos[OF ns]] l(3) p(7) by simp
  have s: "int (start_position tk) \<le> st_start st"
    using l(4) after_next_bounds(4)[OF ok] peek_1[OF ok] by (simp add: Statement_init_def)
  have sk: "st_start st = int (skip_ws (tk_text tk) (start_position tk))"
    using l(4) peek_1[OF ok] start_next_token[OF ok] by (simp add: Statement_init_def)
  then have "statement_token_at (tk_text tk) (nat (st_start st))"
    using ns by (simp add: statement_token_at_def search_next_skip_ws stop_token_def next_token_def)
  then have d: "delimited (tk_text tk) st"
    using l(7,8) tx by (simp add: delimited_def)
  have "parse_statement fuel tk = Some (Inr st, tk')"
    using l(1) by (simp add: parse_statement_def case_prod_beta Let_def)
  with w lt s l(5,6,9) d sk tx show ?thesis by simp
qed

subsection \<open>The unknown sequences of a statement\<close>

text \<open>
  An unknown token is one on which the \<^verbatim>\<open>try\<close> of \<^verbatim>\<open>parse_statement\<close> raises: not a token that
  ends the statement, not a comment, not \<^verbatim>\<open>select\<close>, \<^verbatim>\<open>from\<close> or \<^verbatim>\<open>where\<close>.
  \<open>unknown_run s a b\<close>: from \<open>a\<close> to \<open>b\<close> the text holds unknown tokens, the first at \<open>a\<close>, the last
  ending at \<open>b\<close>, with only comments and single newlines between them.
  \<open>layout s p k us e\<close>: from \<open>p\<close> to \<open>e\<close> the text holds, between comments and single newlines,
  \<open>k\<close> clauses (each from its keyword up to where the clause parser stops) and the runs of
  unknown tokens \<open>us\<close>, in this order; every run is one sequence of \<open>us\<close>, with the start, the
  first token and the length of the run; no unknown token follows a run; and a token that ends
  the statement follows at \<open>e\<close>.
\<close>

definition unknown_token :: "Token \<Rightarrow> bool" where
  "unknown_token t = (\<not> stop_token t \<and> \<not> is_comment t \<and> \<not> keyword_token t)"

lemma skip_tokens_ge: "p \<le> skip_tokens s p"
proof (induction s p rule: skip_tokens.induct)
  case (1 s p)
  then show ?case by (subst skip_tokens.simps) auto
qed

function unknown_run :: "string \<Rightarrow> nat \<Rightarrow> nat \<Rightarrow> bool" where
  "unknown_run s a b =
    (if \<not> unknown_token (fst (search_next s a)) \<or> snd (search_next s a) \<le> a
        \<or> b < snd (search_next s a) then False
     else if snd (search_next s a) = b then True
     else unknown_run s (skip_tokens s (snd (search_next s a))) b)"
  by pat_completeness auto
termination
proof (relation "measure (\<lambda>(s, a, b). b - a)")
  show "wf (measure (\<lambda>(s, a, b). b - a))" by simp
next
  fix s :: string and a b :: nat
  assume "\<not> (\<not> unknown_token (fst (search_next s a)) \<or> snd (search_next s a) \<le> a
        \<or> b < snd (search_next s a))" and "snd (search_next s a) \<noteq> b"
  then have "a < snd (search_next s a)" "snd (search_next s a) < b" by auto
  with skip_tokens_ge[of "snd (search_next s a)" s]
  show "((s, skip_tokens s (snd (search_next s a)), b), (s, a, b)) \<in> measure (\<lambda>(s, a, b). b - a)"
    by simp
qed

declare unknown_run.simps [simp del]

inductive layout :: "string \<Rightarrow> nat \<Rightarrow> nat \<Rightarrow> UnknownSequence list \<Rightarrow> nat \<Rightarrow> bool"
  for s :: string where
  ends: "skip_tokens s p = e \<Longrightarrow> stop_token (fst (search_next s e)) \<Longrightarrow> layout s p 0 [] e"
| clause: "keyword_token (fst (search_next s (skip_tokens s p)))
    \<Longrightarrow> tokenizer_ok tk \<Longrightarrow> tk_text tk = s
    \<Longrightarrow> skip_ws s (start_position tk) = skip_ws s (skip_tokens s p)
    \<Longrightarrow> parse_statement_try fuel (fst (search_next s (skip_tokens s p))) tk ps
          = Some (Inr False, tk', ps')
    \<Longrightarrow> layout s (start_position tk') k us e
    \<Longrightarrow> layout s p (Suc k) us e"
| unknown: "unknown_token (fst (search_next s (skip_tokens s p)))
    \<Longrightarrow> first_token u = fst (search_next s (skip_tokens s p))
    \<Longrightarrow> us_start u = start (first_token u)
    \<Longrightarrow> us_start u + us_length u = int b
    \<Longrightarrow> unknown_run s (skip_tokens s p) b
    \<Longrightarrow> \<not> unknown_token (fst (search_next s (skip_tokens s b)))
    \<Longrightarrow> layout s b k us e
    \<Longrightarrow> layout s p k (u # us) e"

lemma unknown_run_single:
  assumes "unknown_token (fst (search_next s a))" "a < snd (search_next s a)"
  shows "unknown_run s a (snd (search_next s a))"
  using assms by (subst unknown_run.simps) simp

lemma unknown_run_le: "unknown_run s a b \<Longrightarrow> a < b"
  by (subst (asm) unknown_run.simps) (auto split: if_splits)

lemma unknown_run_extend:
  "unknown_run s a b \<Longrightarrow> unknown_token (fst (search_next s (skip_tokens s b)))
   \<Longrightarrow> skip_tokens s b < snd (search_next s (skip_tokens s b))
   \<Longrightarrow> unknown_run s a (snd (search_next s (skip_tokens s b)))"
proof (induction s a b rule: unknown_run.induct)
  case (1 s a b)
  let ?a' = "snd (search_next s a)"
  let ?c = "snd (search_next s (skip_tokens s b))"
  from "1.prems"(1) have g: "\<not> (\<not> unknown_token (fst (search_next s a)) \<or> ?a' \<le> a \<or> b < ?a')"
    by (subst (asm) unknown_run.simps) (auto split: if_splits)
  have bc: "b < ?c" using skip_tokens_ge[of b s] "1.prems"(3) by simp
  with g have g': "\<not> (\<not> unknown_token (fst (search_next s a)) \<or> ?a' \<le> a \<or> ?c < ?a')"
    and ne: "?a' \<noteq> ?c" by auto
  have "unknown_run s (skip_tokens s ?a') ?c"
  proof (cases "?a' = b")
    case True
    then show ?thesis using "1.prems"(2,3) by (simp add: unknown_run_single)
  next
    case False
    with "1.prems"(1) g have "unknown_run s (skip_tokens s ?a') b"
      by (subst (asm) unknown_run.simps) simp
    from "1.IH"[OF g False this "1.prems"(2,3)] show ?thesis .
  qed
  with g' ne show ?case by (subst unknown_run.simps) simp
qed

lemma unknown_run_unfold:
  "unknown_run s a b \<longleftrightarrow>
     unknown_token (fst (search_next s a)) \<and> a < snd (search_next s a) \<and> snd (search_next s a) \<le> b
     \<and> (snd (search_next s a) = b \<or> unknown_run s (skip_tokens s (snd (search_next s a))) b)"
  by (subst unknown_run.simps) auto

lemma unknown_run_skip_ws:
  assumes "unknown_run s a b" "a \<le> length s"
  shows "unknown_run s (skip_ws s a) b"
proof -
  let ?a' = "snd (search_next s a)"
  from assms(1) have g: "unknown_token (fst (search_next s a))" "?a' \<le> b"
    and r: "?a' = b \<or> unknown_run s (skip_tokens s ?a') b"
    by (subst (asm) unknown_run_unfold, simp)+
  have "\<not> is_special END_OF_STRING (fst (search_next s a))"
    using g(1) by (simp add: unknown_token_def stop_token_def)
  with search_next_props(6)[OF assms(2), of "fst (search_next s a)" ?a']
  have lt: "skip_ws s a < ?a'" by simp
  show ?thesis
    by (subst unknown_run_unfold) (use g r lt in \<open>simp add: search_next_skip_ws\<close>)
qed

definition layout_known :: "string \<Rightarrow> Statement \<Rightarrow> Statement \<Rightarrow> nat \<Rightarrow> bool" where
  "layout_known s ret st p =
    (\<exists>new k. unknowns st = unknowns ret @ new \<and> n_clauses st = n_clauses ret + k
       \<and> layout s p k new (nat (st_start st + st_length st)))"

definition layout_open :: "string \<Rightarrow> Statement \<Rightarrow> Statement \<Rightarrow> nat \<Rightarrow> bool" where
  "layout_open s ret st a0 =
    (\<exists>b new k. unknowns st = butlast (unknowns ret)
          @ [(last (unknowns ret))\<lparr>us_length := int b - us_start (last (unknowns ret))\<rparr>] @ new
       \<and> n_clauses st = n_clauses ret + k
       \<and> unknown_run s a0 b
       \<and> \<not> unknown_token (fst (search_next s (skip_tokens s b)))
       \<and> layout s b k new (nat (st_start st + st_length st)))"

lemma stop_not_unknown: "stop_token t \<Longrightarrow> \<not> unknown_token t"
  by (simp add: unknown_token_def)

lemma keyword_not_unknown: "keyword_token t \<Longrightarrow> \<not> unknown_token t"
  by (simp add: unknown_token_def)

lemma last_same_length:
  assumes "us \<noteq> []" "us_start (last us) + us_length (last us) = int p"
  shows "butlast us @ [(last us)\<lparr>us_length := int p - us_start (last us)\<rparr>] = us"
proof -
  from assms(2) have "int p - us_start (last us) = us_length (last us)" by simp
  then show ?thesis using assms(1) by simp
qed

lemma layout_stop_known:
  assumes "skip_tokens s p = nat (st_start st + st_length st)"
    and "stop_token (fst (search_next s (skip_tokens s p)))"
    and "unknowns st = unknowns ret" "n_clauses st = n_clauses ret"
  shows "layout_known s ret st p"
proof -
  have "layout s p 0 [] (nat (st_start st + st_length st))"
    using assms(1,2) by (auto intro: layout.ends)
  with assms(3,4) show ?thesis unfolding layout_known_def by auto
qed

lemma layout_stop_open:
  assumes "skip_tokens s p = nat (st_start st + st_length st)"
    and "stop_token (fst (search_next s (skip_tokens s p)))"
    and "unknowns st = unknowns ret" "n_clauses st = n_clauses ret"
    and "unknowns ret \<noteq> []" "unknown_run s a0 p"
    and "us_start (last (unknowns ret)) + us_length (last (unknowns ret)) = int p"
  shows "layout_open s ret st a0"
proof -
  have l: "layout s p 0 [] (nat (st_start st + st_length st))"
    using assms(1,2) by (auto intro: layout.ends)
  have u: "unknowns st = butlast (unknowns ret)
          @ [(last (unknowns ret))\<lparr>us_length := int p - us_start (last (unknowns ret))\<rparr>] @ []"
    using last_same_length[OF assms(5,7)] assms(3) by simp
  have n: "\<not> unknown_token (fst (search_next s (skip_tokens s p)))"
    using assms(2) by (rule stop_not_unknown)
  show ?thesis unfolding layout_open_def using u assms(4,6) n l by (intro exI[of _ p] exI[of _ "[]"] exI[of _ 0]) simp
qed

lemma layout_clause_known:
  assumes "keyword_token (fst (search_next s (skip_tokens s p)))"
    and "tokenizer_ok tk" "tk_text tk = s"
    and "skip_ws s (start_position tk) = skip_ws s (skip_tokens s p)"
    and "parse_statement_try fuel (fst (search_next s (skip_tokens s p))) tk ps
          = Some (Inr False, tk', ret2)"
    and "layout_known s ret2 st (start_position tk')"
    and "unknowns ret2 = unknowns ret" "n_clauses ret2 = Suc (n_clauses ret)"
  shows "layout_known s ret st p"
proof -
  from assms(6) obtain new k where
    n: "unknowns st = unknowns ret2 @ new" "n_clauses st = n_clauses ret2 + k"
      "layout s (start_position tk') k new (nat (st_start st + st_length st))"
    unfolding layout_known_def by blast
  have "layout s p (Suc k) new (nat (st_start st + st_length st))"
    using assms(1,2,3,4,5) n(3) by (rule layout.clause)
  with n(1,2) assms(7,8) show ?thesis unfolding layout_known_def
    by (intro exI[of _ new] exI[of _ "Suc k"]) simp
qed

lemma layout_clause_open:
  assumes "keyword_token (fst (search_next s (skip_tokens s p)))"
    and "tokenizer_ok tk" "tk_text tk = s"
    and "skip_ws s (start_position tk) = skip_ws s (skip_tokens s p)"
    and "parse_statement_try fuel (fst (search_next s (skip_tokens s p))) tk ps
          = Some (Inr False, tk', ret2)"
    and "layout_known s ret2 st (start_position tk')"
    and "unknowns ret2 = unknowns ret" "n_clauses ret2 = Suc (n_clauses ret)"
    and "unknowns ret \<noteq> []" "unknown_run s a0 p"
    and "us_start (last (unknowns ret)) + us_length (last (unknowns ret)) = int p"
  shows "layout_open s ret st a0"
proof -
  from assms(6) obtain new k where
    n: "unknowns st = unknowns ret2 @ new" "n_clauses st = n_clauses ret2 + k"
      "layout s (start_position tk') k new (nat (st_start st + st_length st))"
    unfolding layout_known_def by blast
  have l: "layout s p (Suc k) new (nat (st_start st + st_length st))"
    using assms(1,2,3,4,5) n(3) by (rule layout.clause)
  have u: "unknowns st = butlast (unknowns ret)
          @ [(last (unknowns ret))\<lparr>us_length := int p - us_start (last (unknowns ret))\<rparr>] @ new"
    using last_same_length[OF assms(9,11)] n(1) assms(7) by simp
  have nu: "\<not> unknown_token (fst (search_next s (skip_tokens s p)))"
    using assms(1) by (rule keyword_not_unknown)
  show ?thesis unfolding layout_open_def using u n(2) assms(8,10) nu l
    by (intro exI[of _ p] exI[of _ new] exI[of _ "Suc k"]) simp
qed

lemma layout_unknown_known:
  assumes "unknown_token t" "t = fst (search_next s (skip_tokens s p))"
    and "layout_open s (record_unknown True t ret1) st (skip_tokens s p)"
    and "unknowns ret1 = unknowns ret" "n_clauses ret1 = n_clauses ret"
  shows "layout_known s ret st p"
proof -
  let ?u0 = "\<lparr>us_start = start t, us_length = tlength t, first_token = t\<rparr>"
  have r3: "unknowns (record_unknown True t ret1) = unknowns ret @ [?u0]"
    "n_clauses (record_unknown True t ret1) = n_clauses ret"
    using assms(4,5) by (simp_all add: record_unknown_def n_clauses_def)
  from assms(3) obtain b new k where
    n: "unknowns st = unknowns ret @ [?u0\<lparr>us_length := int b - start t\<rparr>] @ new"
      "n_clauses st = n_clauses ret + k"
      "unknown_run s (skip_tokens s p) b"
      "\<not> unknown_token (fst (search_next s (skip_tokens s b)))"
      "layout s b k new (nat (st_start st + st_length st))"
    unfolding layout_open_def r3 by auto
  let ?u = "?u0\<lparr>us_length := int b - start t\<rparr>"
  have "layout s p k (?u # new) (nat (st_start st + st_length st))"
  proof (rule layout.unknown[where b = b])
    show "unknown_token (fst (search_next s (skip_tokens s p)))" using assms(1,2) by simp
    show "first_token ?u = fst (search_next s (skip_tokens s p))" using assms(2) by simp
    show "us_start ?u = start (first_token ?u)" by simp
    show "us_start ?u + us_length ?u = int b" by simp
  qed (use n in simp_all)
  with n(1,2) show ?thesis unfolding layout_known_def
    by (intro exI[of _ "?u # new"] exI[of _ k]) simp
qed

lemma layout_unknown_open:
  assumes "layout_open s (record_unknown False t ret1) st a0"
    and "unknowns ret1 = unknowns ret" "n_clauses ret1 = n_clauses ret" "unknowns ret \<noteq> []"
  shows "layout_open s ret st a0"
proof -
  let ?l = "last (unknowns ret)"
  let ?x = "start t + tlength t - us_start ?l"
  have r3: "unknowns (record_unknown False t ret1) = butlast (unknowns ret) @ [?l\<lparr>us_length := ?x\<rparr>]"
    "n_clauses (record_unknown False t ret1) = n_clauses ret"
    using assms(2,3) by (simp_all add: record_unknown_def n_clauses_def)
  from assms(1) obtain b new k where
    n: "unknowns st = butlast (unknowns ret) @ [?l\<lparr>us_length := int b - us_start ?l\<rparr>] @ new"
      "n_clauses st = n_clauses ret + k"
      "unknown_run s a0 b"
      "\<not> unknown_token (fst (search_next s (skip_tokens s b)))"
      "layout s b k new (nat (st_start st + st_length st))"
    unfolding layout_open_def r3 by auto
  then show ?thesis unfolding layout_open_def by blast
qed

lemma parse_statement_loop_layout:
  "tokenizer_ok tk \<Longrightarrow> 4 * remaining tk + 6 \<le> fuel \<Longrightarrow> prev \<or> unknowns ret \<noteq> [] \<Longrightarrow>
   synced tk \<or> \<not> stop_token (next_token tk) \<Longrightarrow>
   parse_statement_loop fuel prev tk ret = Some (Inr st, tk', ret') \<Longrightarrow>
   (if prev then layout_known (tk_text tk) ret st (start_position tk)
    else (\<forall>a0. unknown_run (tk_text tk) a0 (start_position tk) \<longrightarrow>
            us_start (last (unknowns ret)) + us_length (last (unknowns ret))
              = int (start_position tk) \<longrightarrow>
            layout_open (tk_text tk) ret st a0))"
proof (induction fuel arbitrary: prev tk ret)
  case 0
  then show ?case by simp
next
  case (Suc n)
  note ok = Suc.prems(1) and b = Suc.prems(2) and pu = Suc.prems(3) and pre = Suc.prems(4)
    and res = Suc.prems(5)
  let ?s = "tk_text tk"
  from ok b pu show ?case
  proof (cases rule: parse_statement_loop_step)
    case (stop tk1 ret1 tk2)
    note gp = gnst_postD[OF stop(2)]
    note f1 = gnst_start[OF stop(1)]
    have ok1: "tokenizer_ok tk1" using gp(1) by (rule moved_ok)
    have sy: "synced tk1"
      using gp(1)
    proof (cases rule: moved_cases)
      case same
      with pre stop(3) same_place_next(1,5)[OF same] show ?thesis by auto
    next
      case consumed
      then show ?thesis by (rule consumed_toD)
    qed
    from res stop(5) have st: "st = ret1\<lparr>st_length := end_idx_of_last_consumed_token tk1 - st_start ret1\<rparr>"
      by simp
    have e: "skip_tokens ?s (start_position tk) = nat (st_start st + st_length st)"
      using gp(4) sy st by (simp add: synced_def)
    have sp: "stop_token (fst (search_next ?s (skip_tokens ?s (start_position tk))))"
      using stop(3) gp(4) moved_text[OF gp(1)] by (simp add: next_token_def)
    have u: "unknowns st = unknowns ret" "n_clauses st = n_clauses ret"
      using st f1 by (simp_all add: n_clauses_def)
    show ?thesis
    proof (cases prev)
      case True
      then show ?thesis using layout_stop_known[OF e sp u] by simp
    next
      case False
      with pu have "unknowns ret \<noteq> []" by simp
      with False show ?thesis using layout_stop_open[OF e sp u] by simp
    qed
  next
    case (clause tk1 ret1 tk2 ret2)
    note gp = gnst_postD[OF clause(2)]
    note f1 = gnst_start[OF clause(1)]
    note f2 = try_clause_frame[OF clause(5)]
    note c = consumed_toD[OF clause(4)]
    have ok1: "tokenizer_ok tk1" using gp(1) by (rule moved_ok)
    have tx1: "tk_text tk1 = ?s" using gp(1) by (rule moved_text)
    have tx2: "tk_text tk2 = ?s" using c(2) tx1 by simp
    have ns: "\<not> stop_token (next_token tk1)" using clause(3) by (rule keyword_not_stop)
    have b2: "4 * remaining tk2 + 6 \<le> n"
      using consumed_remaining[OF ok1 clause(4) not_stop_not_eos[OF ns]]
        moved_remaining[OF ok gp(1)] b by simp
    have res2: "parse_statement_loop n True tk2 ret2 = Some (Inr st, tk', ret')"
      using res clause(6) by simp
    have "True \<or> unknowns ret2 \<noteq> []" "synced tk2 \<or> \<not> stop_token (next_token tk2)"
      using c(4) by simp_all
    from Suc.IH[OF c(1) b2 this res2] have lk: "layout_known ?s ret2 st (start_position tk2)"
      using tx2 by simp
    have kw: "keyword_token (fst (search_next ?s (skip_tokens ?s (start_position tk))))"
      using clause(3) gp(4) tx1 by (simp add: next_token_def)
    have sk: "skip_ws ?s (start_position tk1) = skip_ws ?s (skip_tokens ?s (start_position tk))"
      using gp(4) by simp
    have tr: "parse_statement_try n (fst (search_next ?s (skip_tokens ?s (start_position tk)))) tk1 ret1
          = Some (Inr False, tk2, ret2)"
      using clause(5) gp(4) tx1 by (simp add: next_token_def)
    have u: "unknowns ret2 = unknowns ret" "n_clauses ret2 = Suc (n_clauses ret)"
      using f1 f2 by simp_all
    show ?thesis
    proof (cases prev)
      case True
      then show ?thesis using layout_clause_known[OF kw ok1 tx1 sk tr lk u] by simp
    next
      case False
      with pu have "unknowns ret \<noteq> []" by simp
      with False show ?thesis using layout_clause_open[OF kw ok1 tx1 sk tr lk u] by simp
    qed
  next
    case (unknown tk1 ret1)
    note gp = gnst_postD[OF unknown(2)]
    note f1 = gnst_start[OF unknown(1)]
    have ok1: "tokenizer_ok tk1" using gp(1) by (rule moved_ok)
    have tx1: "tk_text tk1 = ?s" using gp(1) by (rule moved_text)
    let ?t = "next_token tk1"
    let ?tk3 = "snd (consume tk1)"
    let ?ret3 = "record_unknown prev ?t ret1"
    note c = consume_step[OF ok1 inner_next_not_stop[OF unknown(3)]]
    note cs = consume_snd[OF ok1]
    have tx3: "tk_text ?tk3 = ?s" using cs(2) tx1 by simp
    have b3: "4 * remaining ?tk3 + 6 \<le> n" using c(4) moved_remaining[OF ok gp(1)] b by simp
    have res3: "parse_statement_loop n False ?tk3 ?ret3 = Some (Inr st, tk', ret')"
      using res unknown(5) by simp
    have u3: "False \<or> unknowns ?ret3 \<noteq> []" by (simp add: record_unknown_def)
    have sy3: "synced ?tk3 \<or> \<not> stop_token (next_token ?tk3)" using cs(4) by simp
    from Suc.IH[OF c(2) b3 u3 sy3 res3] have ih:
      "\<And>a0. unknown_run ?s a0 (start_position ?tk3) \<Longrightarrow>
            us_start (last (unknowns ?ret3)) + us_length (last (unknowns ?ret3))
              = int (start_position ?tk3) \<Longrightarrow>
            layout_open ?s ?ret3 st a0"
      using tx3 by simp
    have ut: "unknown_token ?t"
      using unknown(3,4) gp(2) by (simp add: unknown_token_def)
    have q: "skip_tokens ?s (start_position tk) = start_position tk1" using gp(4) by simp
    have tq: "?t = fst (search_next ?s (skip_tokens ?s (start_position tk)))"
      using q tx1 by (simp add: next_token_def)
    have p3: "start_position ?tk3 = snd (search_next ?s (skip_tokens ?s (start_position tk)))"
      using cs(3) q tx1 by (simp add: after_next_def)
    have lt: "skip_tokens ?s (start_position tk) < snd (search_next ?s (skip_tokens ?s (start_position tk)))"
      using after_next_bounds(3)[OF ok1 not_stop_not_eos[OF unknown(3)]] q tx1
      by (simp add: after_next_def)
    have e3: "start ?t + tlength ?t = int (start_position ?tk3)"
      using sn_facts(3)[of "start_position tk1" "tk_text tk1"] ok1 cs(3)
      by (simp add: tokenizer_ok_def next_token_def after_next_def)
    show ?thesis
    proof (cases prev)
      case True
      have run: "unknown_run ?s (skip_tokens ?s (start_position tk)) (start_position ?tk3)"
        unfolding p3 using ut lt unfolding tq by (rule unknown_run_single)
      have "us_start (last (unknowns ?ret3)) + us_length (last (unknowns ?ret3))
              = int (start_position ?tk3)"
        using True e3 by (simp add: record_unknown_def)
      from ih[OF run this] have "layout_open ?s (record_unknown True ?t ret1) st
          (skip_tokens ?s (start_position tk))"
        using True by simp
      from layout_unknown_known[OF ut tq this f1(2,3)] True show ?thesis by simp
    next
      case False
      with pu have ne: "unknowns ret \<noteq> []" by simp
      have "layout_open ?s ret st a0"
        if r: "unknown_run ?s a0 (start_position tk)"
          and l: "us_start (last (unknowns ret)) + us_length (last (unknowns ret))
              = int (start_position tk)" for a0
      proof -
        have run: "unknown_run ?s a0 (start_position ?tk3)"
          unfolding p3 using r ut[unfolded tq] lt by (rule unknown_run_extend)
        have "us_start (last (unknowns ?ret3)) + us_length (last (unknowns ?ret3))
              = int (start_position ?tk3)"
          using False e3 f1(2) by (simp add: record_unknown_def)
        from ih[OF run this] have "layout_open ?s (record_unknown False ?t ret1) st a0"
          using False by simp
        from layout_unknown_open[OF this f1(2,3) ne] show ?thesis .
      qed
      with False show ?thesis by simp
    qed
  qed
qed

definition statement_layout :: "string \<Rightarrow> Statement \<Rightarrow> bool" where
  "statement_layout s st =
    layout s (nat (st_start st)) (n_clauses st) (unknowns st) (nat (st_start st + st_length st))"

lemma skip_token_at_skip_ws: "skip_token_at s (skip_ws s p) = skip_token_at s p"
  by (simp add: skip_token_at_def search_next_skip_ws)

lemma skip_tokens_skip_ws:
  assumes "p \<le> length s"
  shows "skip_tokens s (skip_ws s p) = (if skip_token_at s p then skip_tokens s p else skip_ws s p)"
proof (cases "skip_token_at s p")
  case True
  let ?a' = "snd (search_next s p)"
  have "\<not> is_special END_OF_STRING (fst (search_next s p))"
    using True
    by (auto simp: skip_token_at_def Let_def is_comment_def is_special_def is_punctuation_def
          split: Token.splits)
  with search_next_props(3,6)[OF assms, of "fst (search_next s p)" ?a'] skip_ws_bounds(1)[of p s]
  have b: "skip_ws s p < ?a'" "?a' \<le> length s" "p < ?a'" by auto
  have "skip_tokens s (skip_ws s p) = skip_tokens s ?a'"
    using True b by (subst skip_tokens.simps) (simp add: skip_token_at_skip_ws search_next_skip_ws)
  moreover have "skip_tokens s p = skip_tokens s ?a'"
    using True b by (subst skip_tokens.simps) simp
  ultimately show ?thesis using True by simp
next
  case False
  then have "skip_tokens s (skip_ws s p) = skip_ws s p"
    by (subst skip_tokens.simps) (simp add: skip_token_at_skip_ws)
  with False show ?thesis by simp
qed

lemma layout_skip_ws:
  assumes l: "layout s p k us e" and le: "p \<le> length s"
    and ns: "\<not> stop_token (fst (search_next s p))"
  shows "layout s (skip_ws s p) k us e"
proof (cases "skip_token_at s p")
  case True
  then have eq: "skip_tokens s (skip_ws s p) = skip_tokens s p"
    using skip_tokens_skip_ws[OF le] by simp
  from l show ?thesis
  proof (cases rule: layout.cases)
    case ends
    then show ?thesis using eq by (auto intro: layout.ends)
  next
    case (clause tk fuel ps tk' ps' k')
    have "layout s (skip_ws s p) (Suc k') us e"
      by (rule layout.clause[where tk = tk and fuel = fuel and ps = ps and tk' = tk' and ps' = ps'])
         (use clause eq in simp_all)
    with clause(1) show ?thesis by simp
  next
    case (unknown u b us')
    have "layout s (skip_ws s p) k (u # us') e"
      by (rule layout.unknown[where b = b]) (use unknown eq in simp_all)
    with unknown(1) show ?thesis by simp
  qed
next
  case False
  then have q: "skip_tokens s p = p" by (rule skip_tokens_stay)
  have q': "skip_tokens s (skip_ws s p) = skip_ws s p"
    using skip_tokens_skip_ws[OF le] False by simp
  have ne: "\<not> is_special END_OF_STRING (fst (search_next s p))"
    using ns by (rule not_stop_not_eos)
  have lt: "p < snd (search_next s p)" using sn_facts(6)[OF le ne] .
  from l show ?thesis
  proof (cases rule: layout.cases)
    case ends
    with q ns show ?thesis by simp
  next
    case (clause tk fuel ps tk' ps' k')
    have idem: "skip_ws s (skip_ws s p) = skip_ws s p" by (simp add: skip_ws_def scan_while_idem)
    have "layout s (skip_ws s p) (Suc k') us e"
      by (rule layout.clause[where tk = tk and fuel = fuel and ps = ps and tk' = tk' and ps' = ps'])
         (use clause q q' idem in \<open>simp_all add: search_next_skip_ws\<close>)
    with clause(1) show ?thesis by simp
  next
    case (unknown u b us')
    have r: "unknown_run s (skip_ws s p) b" using unknown(6) q le by (simp add: unknown_run_skip_ws)
    have "layout s (skip_ws s p) k (u # us') e"
      by (rule layout.unknown[where b = b])
         (use unknown r q q' in \<open>simp_all add: search_next_skip_ws\<close>)
    with unknown(1) show ?thesis by simp
  qed
qed

lemma parse_statement_facts:
  assumes ok: "tokenizer_ok tk" and ns: "\<not> stop_token (next_token tk)"
    and b: "4 * remaining tk + 6 \<le> fuel"
  shows "\<exists>st tk'. parse_statement fuel tk = Some (Inr st, tk') \<and> went_to tk tk'
     \<and> start_position tk < start_position tk'
     \<and> int (start_position tk) \<le> st_start st \<and> 0 \<le> st_length st
     \<and> st_start st + st_length st \<le> int (start_position tk')
     \<and> delimited (tk_text tk) st \<and> statement_layout (tk_text tk) st
     \<and> st_start st = start (next_token tk)
     \<and> skip_separators (tk_text tk) (nat (st_start st + st_length st))
         = skip_separators (tk_text tk) (start_position tk')"
proof -
  from parse_statement_total[OF ok ns b] obtain st tk' where
    t: "parse_statement fuel tk = Some (Inr st, tk')" "went_to tk tk'"
      "start_position tk < start_position tk'"
      "int (start_position tk) \<le> st_start st" "0 \<le> st_length st"
      "st_start st + st_length st \<le> int (start_position tk')"
      "delimited (tk_text tk) st"
      "st_start st = int (skip_ws (tk_text tk) (start_position tk))"
      "skip_separators (tk_text tk) (nat (st_start st + st_length st))
         = skip_separators (tk_text tk) (start_position tk')"
    by blast
  let ?s = "tk_text tk"
  let ?tk1 = "snd (peek 1 tk)"
  let ?token = "fst (peek 1 tk)"
  let ?ret = "Statement_init (start ?token) (tlength ?token)"
  note p = peek_step[OF ok, of 1]
  from t(1) obtain ret' where
    l: "parse_statement_loop fuel True ?tk1 ?ret = Some (Inr st, tk', ret')"
    by (auto simp: parse_statement_def case_prod_beta Let_def)
  have b1: "4 * remaining ?tk1 + 6 \<le> fuel" using p(4) b by simp
  have "True \<or> unknowns ?ret \<noteq> []" "synced ?tk1 \<or> \<not> stop_token (next_token ?tk1)"
    using ns p(5) by simp_all
  from parse_statement_loop_layout[OF p(2) b1 this l]
  have "layout_known (tk_text ?tk1) ?ret st (start_position ?tk1)" by simp
  then have lay: "layout ?s (start_position tk) (n_clauses st) (unknowns st)
      (nat (st_start st + st_length st))"
    using same_placeD(2,3)[OF p(1)]
    by (auto simp: layout_known_def Statement_init_def n_clauses_def)
  have le: "start_position tk \<le> length ?s" using ok by (simp add: tokenizer_ok_def)
  note s = t(8)
  have "layout ?s (skip_ws ?s (start_position tk)) (n_clauses st) (unknowns st)
      (nat (st_start st + st_length st))"
    using lay le ns unfolding next_token_def by (rule layout_skip_ws)
  then have "statement_layout ?s st" using s by (simp add: statement_layout_def)
  moreover have "st_start st = start (next_token tk)" using s start_next_token[OF ok] by simp
  ultimately show ?thesis using t(1-7,9) by blast
qed

subsection \<open>The whole text\<close>

fun spans_ordered :: "int \<Rightarrow> Statement list \<Rightarrow> int \<Rightarrow> bool" where
  "spans_ordered lo [] hi = (lo \<le> hi)"
| "spans_ordered lo (s # ss) hi =
    (lo \<le> st_start s \<and> 0 \<le> st_length s \<and> spans_ordered (st_start s + st_length s) ss hi)"

lemma spans_ordered_mono: "spans_ordered lo ss m \<Longrightarrow> m \<le> hi \<Longrightarrow> spans_ordered lo ss hi"
  by (induction ss arbitrary: lo) auto

lemma spans_ordered_snoc:
  "spans_ordered lo ss m \<Longrightarrow> m \<le> st_start s \<Longrightarrow> 0 \<le> st_length s
   \<Longrightarrow> st_start s + st_length s \<le> hi \<Longrightarrow> spans_ordered lo (ss @ [s]) hi"
  by (induction ss arbitrary: lo) auto

text \<open>\<open>text_layout s p stmts\<close>: from \<open>p\<close> on the text holds, between semicolons and newlines,
  the statements \<open>stmts\<close> and nothing else: each starts at the first token that is not a
  semicolon or a newline, is delimited, and the rest follows its end.\<close>

fun text_layout :: "string \<Rightarrow> nat \<Rightarrow> Statement list \<Rightarrow> bool" where
  "text_layout s p [] = is_special END_OF_STRING (fst (search_next s (skip_separators s p)))"
| "text_layout s p (st # rest) =
    (st_start st = start (fst (search_next s (skip_separators s p)))
     \<and> delimited s st
     \<and> text_layout s (nat (st_start st + st_length st)) rest)"

lemma text_layout_cong:
  "skip_separators s p = skip_separators s p' \<Longrightarrow> text_layout s p l = text_layout s p' l"
  by (cases l) simp_all

lemma parse_all_loop_total:
  "tokenizer_ok tk \<Longrightarrow> 4 * remaining tk + 7 \<le> fuel
   \<Longrightarrow> spans_ordered lo ret (int (start_position tk))
   \<Longrightarrow> list_all (statement_layout (tk_text tk)) ret \<Longrightarrow>
   \<exists>stmts new tk'. parse_all_loop fuel ret tk = Some (Inr stmts, tk')
     \<and> spans_ordered lo stmts (int (length (tk_text tk)))
     \<and> list_all (statement_layout (tk_text tk)) stmts
     \<and> stmts = ret @ new \<and> text_layout (tk_text tk) (start_position tk) new"
proof (induction fuel arbitrary: ret tk)
  case 0
  then show ?case by simp
next
  case (Suc n)
  note ok = Suc.prems(1) and b = Suc.prems(2) and sp = Suc.prems(3) and ly = Suc.prems(4)
  let ?s = "tk_text tk"
  from b have "remaining tk < n" by simp
  from cns_total[OF ok this] obtain tk1 where
    c: "consume_newline_semicolons n tk = Some (Inr (next_token tk1), tk1)"
    and m1: "went_to tk tk1"
    and nn: "\<not> is_punctuation NEWLINE (next_token tk1)" "\<not> is_punctuation SEMICOLON (next_token tk1)"
    and sk: "start_position tk1 = skip_separators ?s (start_position tk)"
    by blast
  note w1 = went_toD[OF m1]
  note r1 = went_remaining[OF m1]
  have nt: "next_token tk1 = fst (search_next ?s (skip_separators ?s (start_position tk)))"
    using sk w1(2) by (simp add: next_token_def)
  show ?case
  proof (cases "is_special END_OF_STRING (next_token tk1)")
    case True
    have "start_position tk \<le> length ?s" using ok by (simp add: tokenizer_ok_def)
    with sp have "spans_ordered lo ret (int (length ?s))"
      by (simp add: spans_ordered_mono)
    moreover have "text_layout ?s (start_position tk) []" using True nt by simp
    ultimately show ?thesis using c True ly by simp
  next
    case False
    with nn have ns: "\<not> stop_token (next_token tk1)" by (simp add: stop_token_def)
    have b1: "4 * remaining tk1 + 6 \<le> n" using r1 b by simp
    from parse_statement_facts[OF w1(1) ns b1] obtain st tk2 where
      s: "parse_statement n tk1 = Some (Inr st, tk2)" "went_to tk1 tk2"
        "start_position tk1 < start_position tk2"
        "int (start_position tk1) \<le> st_start st" "0 \<le> st_length st"
        "st_start st + st_length st \<le> int (start_position tk2)"
        "delimited (tk_text tk1) st" "statement_layout (tk_text tk1) st"
        "st_start st = start (next_token tk1)"
        "skip_separators (tk_text tk1) (nat (st_start st + st_length st))
           = skip_separators (tk_text tk1) (start_position tk2)"
      by blast
    note w2 = went_toD[OF s(2)]
    have tx: "tk_text tk2 = ?s" "tk_text tk1 = ?s"
      using w1(2) w2(2) by simp_all
    have "start_position tk2 \<le> length (tk_text tk2)" using w2(1) by (simp add: tokenizer_ok_def)
    then have "remaining tk2 < remaining tk1" using s(3) w2(2) by (simp add: remaining_def)
    then have b2: "4 * remaining tk2 + 7 \<le> n" using r1 b by simp
    have ly2: "list_all (statement_layout (tk_text tk2)) (ret @ [st])" using ly s(8) tx by simp
    have "int (start_position tk) \<le> st_start st" using w1(3) s(4) by simp
    with sp have sp2: "spans_ordered lo (ret @ [st]) (int (start_position tk2))"
      using s(5,6) by (simp add: spans_ordered_snoc)
    from Suc.IH[OF w2(1) b2 sp2 ly2] obtain stmts new tk' where
      ih: "parse_all_loop n (ret @ [st]) tk2 = Some (Inr stmts, tk')"
        "spans_ordered lo stmts (int (length (tk_text tk2)))"
        "list_all (statement_layout (tk_text tk2)) stmts"
        "stmts = (ret @ [st]) @ new" "text_layout (tk_text tk2) (start_position tk2) new"
      by blast
    have "text_layout ?s (nat (st_start st + st_length st)) new"
      using ih(5) s(10) tx text_layout_cong[of ?s "nat (st_start st + st_length st)" "start_position tk2"]
      by simp
    then have tl: "text_layout ?s (start_position tk) (st # new)"
      using s(7,9) nt tx by simp
    have eq: "stmts = ret @ (st # new)" using ih(4) by simp
    have pa: "parse_all_loop (Suc n) ret tk = Some (Inr stmts, tk')"
      using c False s(1) ih(1) by simp
    have "spans_ordered lo stmts (int (length ?s))" "list_all (statement_layout ?s) stmts"
      using ih(2,3) tx by simp_all
    with pa eq tl show ?thesis by blast
  qed
qed

lemma parseAll_total_spans:
  "\<exists>stmts. parseAll s = Some (Inr stmts) \<and> spans_ordered 0 stmts (int (length s))
     \<and> text_layout s 0 stmts \<and> list_all (statement_layout s) stmts"
proof -
  let ?tk = "Tokenizer_init s 0"
  have ok: "tokenizer_ok ?tk" by (simp add: tokenizer_ok_def Tokenizer_init_def)
  have b: "4 * remaining ?tk + 7 \<le> parse_fuel s"
    by (simp add: remaining_def Tokenizer_init_def parse_fuel_def)
  have sp: "spans_ordered 0 [] (int (start_position ?tk))" by (simp add: Tokenizer_init_def)
  have dl: "list_all (statement_layout (tk_text ?tk)) []"
    by simp
  from parse_all_loop_total[OF ok b sp dl] obtain stmts new tk' where
    "parse_all_loop (parse_fuel s) [] ?tk = Some (Inr stmts, tk')"
    "spans_ordered 0 stmts (int (length (tk_text ?tk)))"
    "list_all (statement_layout (tk_text ?tk)) stmts"
    "stmts = [] @ new" "text_layout (tk_text ?tk) (start_position ?tk) new"
    by blast
  then show ?thesis by (auto simp: parseAll_def parse_all_def Tokenizer_init_def)
qed

lemma spans_ordered_le: "spans_ordered lo ss hi \<Longrightarrow> lo \<le> hi"
proof (induction ss arbitrary: lo)
  case Nil
  then show ?case by simp
next
  case (Cons s ss)
  from Cons.prems have "lo \<le> st_start s" "0 \<le> st_length s"
    "spans_ordered (st_start s + st_length s) ss hi" by simp_all
  with Cons.IH[of "st_start s + st_length s"] show ?case by simp
qed

lemma spans_ordered_all:
  "spans_ordered lo ss hi \<Longrightarrow>
   list_all (\<lambda>s. lo \<le> st_start s \<and> 0 \<le> st_length s \<and> st_start s + st_length s \<le> hi) ss"
proof (induction ss arbitrary: lo)
  case Nil
  then show ?case by simp
next
  case (Cons s ss)
  from Cons.prems have a: "lo \<le> st_start s" "0 \<le> st_length s"
    and r: "spans_ordered (st_start s + st_length s) ss hi" by simp_all
  from Cons.IH[OF r] a have "list_all (\<lambda>s. lo \<le> st_start s \<and> 0 \<le> st_length s \<and> st_start s + st_length s \<le> hi) ss"
    by (auto simp: list_all_iff)
  with a spans_ordered_le[OF r] show ?case by simp
qed

lemma text_layout_rejects_span_over_semicolon:
  "\<not> text_layout ''where a; select b'' 0 [Statement_init 0 17]
   \<and> \<not> text_layout ''where a; select b'' 0 []
   \<and> text_layout ''where a; select b'' 0 [Statement_init 0 7, Statement_init 9 8]"
  by code_simp

section \<open>Claims about whole runs\<close>

text \<open>
  C9. For every text the statements that \<open>parseAll\<close> returns have spans of non-negative length
  inside the text, in the order of the text and without overlap: each starts at or after the
  end of the one before.
\<close>

theorem C9_statement_spans:
  "\<exists>stmts. parseAll txt = Some (Inr stmts)
     \<and> spans_ordered 0 stmts (int (length txt))
     \<and> list_all (\<lambda>s. 0 \<le> st_start s \<and> 0 \<le> st_length s
                      \<and> st_start s + st_length s \<le> int (length txt)) stmts"
  using parseAll_total_spans[of "txt"] spans_ordered_all[of 0 _ "int (length txt)"] by blast

text \<open>
  C5. \<^verbatim>\<open>select 1 @@@ 2\<close> gives one statement with the field of \<^verbatim>\<open>select 1\<close> and exactly one unknown
  sequence, which covers \<^verbatim>\<open>@@@ 2\<close>. In \<^verbatim>\<open>@ @ /* c */ @ select a @ @\<close> the three unknown tokens before
  the clause are one sequence, the comment between them not ending it, and the tokens after
  the recognised clause are a new one. For every text and every statement returned, the
  unknown sequences are exactly the runs of unknown tokens of the statement, in order
  (\<open>statement_layout\<close>): between its clauses the statement holds nothing but comments, single
  newlines and these runs; a sequence starts at the first token of its run, which is its
  \<^verbatim>\<open>first_token\<close>, and ends where the last token of the run ends; within a run only comments
  and single newlines separate the tokens; after a run comes a clause keyword or the end of
  the statement, never another unknown token. So a statement has at most one sequence more
  than it has clauses.
\<close>

theorem C5_unknown_sequences:
  "parseAll ''select 1 @@@ 2'' = Some (Inr [\<lparr>st_start = 0, st_length = 14, selects = [SelectClause [SelectField (ValueExpression (NumberToken 7 1)) None]], froms = [], wheres = [], comments = [], unknowns = [\<lparr>us_start = 9, us_length = 5, first_token = PunctuationToken 9 3 UNKNOWN_OPERATOR\<rparr>]\<rparr>])
   \<and> parseAll ''@ @ /* c */ @ select a @ @'' = Some (Inr [\<lparr>st_start = 0, st_length = 26, selects = [SelectClause [SelectField (ValueExpression (NameToken 21 1 NON_KEYWORD)) None]], froms = [], wheres = [], comments = [SpecialToken 4 7 MULTI_LINE_COMMENT True], unknowns = [\<lparr>us_start = 0, us_length = 13, first_token = PunctuationToken 0 1 UNKNOWN_OPERATOR\<rparr>, \<lparr>us_start = 23, us_length = 3, first_token = PunctuationToken 23 1 UNKNOWN_OPERATOR\<rparr>]\<rparr>])
   \<and> (\<exists>stmts. parseAll txt = Some (Inr stmts)
         \<and> list_all (statement_layout txt) stmts
         \<and> list_all (\<lambda>s. length (unknowns s) \<le> length (selects s) + length (froms s) + length (wheres s) + 1) stmts)"
proof (intro conjI)
  from parseAll_total_spans[of "txt"] obtain stmts where p: "parseAll txt = Some (Inr stmts)"
    and l: "list_all (statement_layout txt) stmts"
    by blast
  from parseAll_props[OF p] have "list_all statement_props stmts" by simp
  then have "list_all (\<lambda>s. length (unknowns s) \<le> length (selects s) + length (froms s) + length (wheres s) + 1) stmts"
    by (simp add: list_all_iff statement_props_def n_clauses_def)
  with p l show "\<exists>stmts. parseAll txt = Some (Inr stmts)
         \<and> list_all (statement_layout txt) stmts
         \<and> list_all (\<lambda>s. length (unknowns s) \<le> length (selects s) + length (froms s) + length (wheres s) + 1) stmts"
    by blast
qed code_simp+

text \<open>
  C6. Two statements for \<^verbatim>\<open>select a\<close>, an empty line, \<^verbatim>\<open>select b\<close> and for \<^verbatim>\<open>select a; select b;\<close>;
  none for the empty text; one statement with two SELECT clauses of one field each when a
  single newline separates them. For every text the statements returned are laid out as
  \<open>text_layout\<close> says: after semicolons and newlines, which are skipped, a statement starts at the
  next token; its span runs over tokens none of which is a semicolon, the end of the text or a
  newline followed by a newline, and ends right before such a token; the next statement, if
  any, is found in the same way from there, and after the last one only semicolons and
  newlines are left.
\<close>

theorem C6_statement_delimiters:
  "parseAll ''select a\<newline>\<newline>select b'' = Some (Inr [\<lparr>st_start = 0, st_length = 8, selects = [SelectClause [SelectField (ValueExpression (NameToken 7 1 NON_KEYWORD)) None]], froms = [], wheres = [], comments = [], unknowns = []\<rparr>, \<lparr>st_start = 10, st_length = 8, selects = [SelectClause [SelectField (ValueExpression (NameToken 17 1 NON_KEYWORD)) None]], froms = [], wheres = [], comments = [], unknowns = []\<rparr>])
   \<and> parseAll ''select a; select b;'' = Some (Inr [\<lparr>st_start = 0, st_length = 8, selects = [SelectClause [SelectField (ValueExpression (NameToken 7 1 NON_KEYWORD)) None]], froms = [], wheres = [], comments = [], unknowns = []\<rparr>, \<lparr>st_start = 10, st_length = 8, selects = [SelectClause [SelectField (ValueExpression (NameToken 17 1 NON_KEYWORD)) None]], froms = [], wheres = [], comments = [], unknowns = []\<rparr>])
   \<and> parseAll '''' = Some (Inr [])
   \<and> parseAll ''select a\<newline>select b'' = Some (Inr [\<lparr>st_start = 0, st_length = 17, selects = [SelectClause [SelectField (ValueExpression (NameToken 7 1 NON_KEYWORD)) None], SelectClause [SelectField (ValueExpression (NameToken 16 1 NON_KEYWORD)) None]], froms = [], wheres = [], comments = [], unknowns = []\<rparr>])
   \<and> (\<exists>stmts. parseAll txt = Some (Inr stmts) \<and> text_layout txt 0 stmts)"
proof (intro conjI)
  show "\<exists>stmts. parseAll txt = Some (Inr stmts) \<and> text_layout txt 0 stmts"
    using parseAll_total_spans[of "txt"] by blast
qed code_simp+

section \<open>The parser under a recursion limit\<close>

text \<open>
  The interpreter that runs \<^verbatim>\<open>parser.py\<close> allows a bounded number of nested calls and raises
  \<^verbatim>\<open>RecursionError\<close> at the call that would exceed it. The definitions of this section are
  those of the parser above with this limit: \<open>limit\<close> is the number of nested calls of
  methods of \<^verbatim>\<open>Parser\<close> that are allowed, \<open>depth\<close> the number of the call that is being made
  (\<^verbatim>\<open>parse_all\<close> is call 1). A loop stays in the call of its method. The calls of the methods
  of the tokenizer and of the constructors are not counted: the interpreter, which counts
  them too, reaches its limit no later than these definitions do. The only \<^verbatim>\<open>except\<close> clauses
  of the parser name \<^verbatim>\<open>UnknownTokenException\<close>, so a \<^verbatim>\<open>RecursionError\<close> leaves every method
  it passes through.
\<close>

datatype raised = RecursionError | Raised exception

type_synonym ('a, 's) limited = "((raised + 'a) \<times> 's) option"

definition then_do_limited ::
  "('a, 's) limited \<Rightarrow> ('a \<Rightarrow> 's \<Rightarrow> ('b, 's) limited) \<Rightarrow> ('b, 's) limited" where
  "then_do_limited m f =
    (case m of
       None \<Rightarrow> None
     | Some (Inl e, s) \<Rightarrow> Some (Inl e, s)
     | Some (Inr a, s) \<Rightarrow> f a s)"

lemma then_do_limited_cong [fundef_cong]:
  "m = m' \<Longrightarrow> (\<And>a s. m' = Some (Inr a, s) \<Longrightarrow> f a s = f' a s)
    \<Longrightarrow> then_do_limited m f = then_do_limited m' f'"
  by (auto simp: then_do_limited_def split: option.splits sum.splits)

text \<open>A run of a method that calls no other method of the parser, as a run under the limit.\<close>

definition unlimited :: "('a, 's) result \<Rightarrow> ('a, 's) limited" where
  "unlimited m =
    map_option (\<lambda>(r, s). (case r of Inl e \<Rightarrow> Inl (Raised e) | Inr a \<Rightarrow> Inr a, s)) m"

text \<open>Call number \<open>depth\<close>, made in state \<open>s\<close>, of a method with body \<open>m\<close>.\<close>

definition call :: "nat \<Rightarrow> nat \<Rightarrow> 's \<Rightarrow> ('a, 's) limited \<Rightarrow> ('a, 's) limited" where
  "call limit depth s m = (if limit < depth then Some (Inl RecursionError, s) else m)"

lemma call_cong [fundef_cong]:
  "limit = limit' \<Longrightarrow> depth = depth' \<Longrightarrow> s = s' \<Longrightarrow> (\<not> limit' < depth' \<Longrightarrow> m = m')
    \<Longrightarrow> call limit depth s m = call limit' depth' s' m'"
  by (simp add: call_def)

definition consume_newline_semicolons_limited ::
  "nat \<Rightarrow> nat \<Rightarrow> nat \<Rightarrow> Tokenizer \<Rightarrow> (Token, Tokenizer) limited" where
  "consume_newline_semicolons_limited limit depth fuel tk =
    call limit depth tk (unlimited (consume_newline_semicolons fuel tk))"

definition get_next_standard_token_limited ::
  "nat \<Rightarrow> nat \<Rightarrow> nat \<Rightarrow> Tokenizer \<Rightarrow> Statement \<Rightarrow> (Token, Tokenizer \<times> Statement) limited" where
  "get_next_standard_token_limited limit depth fuel tk parent_statement =
    call limit depth (tk, parent_statement)
      (unlimited (get_next_standard_token fuel tk parent_statement))"

fun parse_expression_limited ::
    "nat \<Rightarrow> nat \<Rightarrow> nat \<Rightarrow> int \<Rightarrow> Tokenizer \<Rightarrow> Statement
      \<Rightarrow> (Expression, Tokenizer \<times> Statement) limited"
  and parse_expression_loop_limited ::
    "nat \<Rightarrow> nat \<Rightarrow> nat \<Rightarrow> int \<Rightarrow> Expression \<Rightarrow> Tokenizer \<Rightarrow> Statement
      \<Rightarrow> (Expression, Tokenizer \<times> Statement) limited"
  and parse_non_binary_expression_limited ::
    "nat \<Rightarrow> nat \<Rightarrow> nat \<Rightarrow> Tokenizer \<Rightarrow> Statement
      \<Rightarrow> (Expression, Tokenizer \<times> Statement) limited"
  and parse_non_binary_expression_loop_limited ::
    "nat \<Rightarrow> nat \<Rightarrow> nat \<Rightarrow> Token \<Rightarrow> Tokenizer \<Rightarrow> Statement
      \<Rightarrow> (Expression, Tokenizer \<times> Statement) limited"
where
  "parse_expression_limited limit depth 0 expression_precedence tk parent_statement =
    call limit depth (tk, parent_statement) None"
| "parse_expression_limited limit depth (Suc fuel) expression_precedence tk parent_statement =
    call limit depth (tk, parent_statement)
      (then_do_limited (parse_non_binary_expression_limited limit (depth + 1) fuel tk parent_statement)
        (\<lambda>expression (tk, parent_statement).
          if is_placeholder expression then Some (Inr expression, tk, parent_statement)
          else parse_expression_loop_limited limit depth fuel expression_precedence expression tk
                 parent_statement))"
| "parse_expression_loop_limited limit depth 0 expression_precedence expression tk
     parent_statement = None"
| "parse_expression_loop_limited limit depth (Suc fuel) expression_precedence expression tk
     parent_statement =
    then_do_limited (get_next_standard_token_limited limit (depth + 1) fuel tk parent_statement)
      (\<lambda>binop (tk, parent_statement).
        case operator_kind_of binop of
          None \<Rightarrow> Some (Inr expression, tk, parent_statement)
        | Some kind \<Rightarrow>
            (let binop_precedence =
                   (case map_of operator_to_precedence kind of
                      Some p \<Rightarrow> p | None \<Rightarrow> comma_precedence + 1)
             in if binop_precedence > expression_precedence
                then Some (Inr expression, tk, parent_statement)
                else
                  then_do_limited
                    (parse_expression_limited limit (depth + 1) fuel (binop_precedence - 1)
                       (snd (consume tk)) parent_statement)
                    (\<lambda>next_expression (tk, parent_statement).
                      let expression = BinaryExpression expression binop next_expression
                      in if is_placeholder next_expression
                         then Some (Inr expression, tk, parent_statement)
                         else parse_expression_loop_limited limit depth fuel expression_precedence
                                expression tk parent_statement)))"
| "parse_non_binary_expression_limited limit depth 0 tk parent_statement =
    call limit depth (tk, parent_statement) None"
| "parse_non_binary_expression_limited limit depth (Suc fuel) tk parent_statement =
    call limit depth (tk, parent_statement)
      (then_do_limited (get_next_standard_token_limited limit (depth + 1) fuel tk parent_statement)
        (\<lambda>token (tk, parent_statement).
          case parse_non_binary_expression_loop_limited limit depth fuel token tk
                 parent_statement of
            Some (Inl (Raised UnknownTokenException), s) \<Rightarrow>
              Some (Inr (PlaceholderExpression ''1''), s)
          | r \<Rightarrow> r))"
| "parse_non_binary_expression_loop_limited limit depth 0 token tk parent_statement = None"
| "parse_non_binary_expression_loop_limited limit depth (Suc fuel) token tk parent_statement =
    (case token of
       NameToken _ _ ty \<Rightarrow>
         if ty = NON_KEYWORD
         then Some (Inr (ValueExpression token), snd (consume tk), parent_statement)
         else Some (Inl (Raised UnknownTokenException), tk, parent_statement)
     | NumberToken _ _ \<Rightarrow>
         Some (Inr (ValueExpression token), snd (consume tk), parent_statement)
     | PunctuationToken _ _ ty \<Rightarrow>
         if ty = LEFT_PAREN then
           then_do_limited
             (parse_expression_limited limit (depth + 1) fuel comma_precedence (snd (consume tk))
                parent_statement)
             (\<lambda>ret (tk, parent_statement).
               then_do_limited
                 (get_next_standard_token_limited limit (depth + 1) fuel tk parent_statement)
                 (\<lambda>token2 (tk, parent_statement).
                   if is_punctuation RIGHT_PAREN token2
                   then Some (Inr (ParenExpression token ret (Some token2)),
                              snd (consume tk), parent_statement)
                   else Some (Inr (ParenExpression token ret None), tk, parent_statement)))
         else Some (Inl (Raised UnknownTokenException), tk, parent_statement)
     | SpecialToken _ _ ty _ \<Rightarrow>
         if ty = SINGLE_QUOTE_STRING
         then Some (Inr (ValueExpression token), snd (consume tk), parent_statement)
         else if ty = DOUBLE_QUOTE_STRING
         then Some (Inr (ValueExpression token), snd (consume tk), parent_statement)
         else if ty = SINGLE_LINE_COMMENT \<or> ty = MULTI_LINE_COMMENT
         then parse_non_binary_expression_loop_limited limit depth fuel token (snd (consume tk))
                (parent_statement\<lparr>comments := comments parent_statement @ [token]\<rparr>)
         else Some (Inl (Raised UnknownTokenException), tk, parent_statement))"

definition parse_alias_limited ::
  "nat \<Rightarrow> nat \<Rightarrow> nat \<Rightarrow> Tokenizer \<Rightarrow> Statement
    \<Rightarrow> (Token option \<times> Token, Tokenizer \<times> Statement) limited" where
  "parse_alias_limited limit depth fuel tk parent_statement =
    then_do_limited (get_next_standard_token_limited limit (depth + 1) fuel tk parent_statement)
      (\<lambda>token (tk, parent_statement).
        then_do_limited
          (if is_name AS token
           then get_next_standard_token_limited limit (depth + 1) fuel (snd (consume tk))
                  parent_statement
           else Some (Inr token, tk, parent_statement))
          (\<lambda>token (tk, parent_statement).
            if is_name NON_KEYWORD token \<or> is_special DOUBLE_QUOTE_STRING token
            then then_do_limited
                   (get_next_standard_token_limited limit (depth + 1) fuel (snd (consume tk))
                      parent_statement)
                   (\<lambda>token' s. Some (Inr (Some token, token'), s))
            else Some (Inr (None, token), tk, parent_statement)))"

fun parse_select_loop_limited ::
  "nat \<Rightarrow> nat \<Rightarrow> nat \<Rightarrow> SelectClause \<Rightarrow> Tokenizer \<Rightarrow> Statement
    \<Rightarrow> (SelectClause, Tokenizer \<times> Statement) limited"
where
  "parse_select_loop_limited limit depth 0 ret tk parent_statement = None"
| "parse_select_loop_limited limit depth (Suc fuel) ret tk parent_statement =
    then_do_limited
      (parse_expression_limited limit (depth + 1) fuel (comma_precedence - 1) tk parent_statement)
      (\<lambda>expression (tk, parent_statement).
        then_do_limited (parse_alias_limited limit depth fuel tk parent_statement)
          (\<lambda>(alias, token) (tk, parent_statement).
            let ret = SelectClause (select_fields ret @ [SelectField expression alias])
            in if is_punctuation COMMA token
               then parse_select_loop_limited limit depth fuel ret (snd (consume tk))
                      parent_statement
               else Some (Inr ret, tk, parent_statement)))"

definition parse_select_limited ::
  "nat \<Rightarrow> nat \<Rightarrow> nat \<Rightarrow> Tokenizer \<Rightarrow> Statement
    \<Rightarrow> (SelectClause, Tokenizer \<times> Statement) limited" where
  "parse_select_limited limit depth fuel tk parent_statement =
    call limit depth (tk, parent_statement)
      (parse_select_loop_limited limit depth fuel (SelectClause []) (snd (consume tk))
         parent_statement)"

fun parse_from_loop_limited ::
  "nat \<Rightarrow> nat \<Rightarrow> nat \<Rightarrow> FromClause \<Rightarrow> Tokenizer \<Rightarrow> Statement
    \<Rightarrow> (FromClause, Tokenizer \<times> Statement) limited"
where
  "parse_from_loop_limited limit depth 0 ret tk parent_statement = None"
| "parse_from_loop_limited limit depth (Suc fuel) ret tk parent_statement =
    then_do_limited
      (parse_expression_limited limit (depth + 1) fuel
         (the (map_of operator_to_precedence (Inl DOT))) tk parent_statement)
      (\<lambda>expression (tk, parent_statement).
        then_do_limited (parse_alias_limited limit depth fuel tk parent_statement)
          (\<lambda>(alias, token) (tk, parent_statement).
            let ret = FromClause (from_fields ret @ [FromField expression alias])
            in if is_punctuation COMMA token
               then parse_from_loop_limited limit depth fuel ret (snd (consume tk))
                      parent_statement
               else Some (Inr ret, tk, parent_statement)))"

definition parse_from_limited ::
  "nat \<Rightarrow> nat \<Rightarrow> nat \<Rightarrow> Tokenizer \<Rightarrow> Statement
    \<Rightarrow> (FromClause, Tokenizer \<times> Statement) limited" where
  "parse_from_limited limit depth fuel tk parent_statement =
    call limit depth (tk, parent_statement)
      (parse_from_loop_limited limit depth fuel (FromClause []) (snd (consume tk))
         parent_statement)"

definition parse_where_limited ::
  "nat \<Rightarrow> nat \<Rightarrow> nat \<Rightarrow> Tokenizer \<Rightarrow> Statement
    \<Rightarrow> (WhereClause, Tokenizer \<times> Statement) limited" where
  "parse_where_limited limit depth fuel tk parent_statement =
    call limit depth (tk, parent_statement)
      (then_do_limited
         (parse_expression_limited limit (depth + 1) fuel (comma_precedence - 1)
            (snd (consume tk)) parent_statement)
         (\<lambda>expression s. Some (Inr (WhereClause expression), s)))"

definition parse_statement_try_limited ::
  "nat \<Rightarrow> nat \<Rightarrow> nat \<Rightarrow> Token \<Rightarrow> Tokenizer \<Rightarrow> Statement
    \<Rightarrow> (bool, Tokenizer \<times> Statement) limited" where
  "parse_statement_try_limited limit depth fuel token tk ret =
    (case token of
       NameToken _ _ ty \<Rightarrow>
         if ty = SELECT then
           then_do_limited (parse_select_limited limit (depth + 1) fuel tk ret)
             (\<lambda>clause (tk, ret). Some (Inr False, tk, ret\<lparr>selects := selects ret @ [clause]\<rparr>))
         else if ty = FROM then
           then_do_limited (parse_from_limited limit (depth + 1) fuel tk ret)
             (\<lambda>clause (tk, ret). Some (Inr False, tk, ret\<lparr>froms := froms ret @ [clause]\<rparr>))
         else if ty = WHERE then
           then_do_limited (parse_where_limited limit (depth + 1) fuel tk ret)
             (\<lambda>clause (tk, ret). Some (Inr False, tk, ret\<lparr>wheres := wheres ret @ [clause]\<rparr>))
         else Some (Inl (Raised UnknownTokenException), tk, ret)
     | PunctuationToken _ _ ty \<Rightarrow>
         if ty = SEMICOLON then
           Some (Inr True, snd (consume tk),
                 ret\<lparr>st_length := end_idx_of_last_consumed_token tk - st_start ret\<rparr>)
         else if ty = NEWLINE then
           Some (Inr True, snd (consume (snd (consume tk))),
                 ret\<lparr>st_length := end_idx_of_last_consumed_token tk - st_start ret\<rparr>)
         else Some (Inl (Raised UnknownTokenException), tk, ret)
     | SpecialToken _ _ ty _ \<Rightarrow>
         if ty = END_OF_STRING then
           Some (Inr True, tk,
                 ret\<lparr>st_length := end_idx_of_last_consumed_token tk - st_start ret\<rparr>)
         else Some (Inl (Raised UnknownTokenException), tk, ret)
     | NumberToken _ _ \<Rightarrow> Some (Inl (Raised UnknownTokenException), tk, ret))"

fun parse_statement_loop_limited ::
  "nat \<Rightarrow> nat \<Rightarrow> nat \<Rightarrow> bool \<Rightarrow> Tokenizer \<Rightarrow> Statement
    \<Rightarrow> (Statement, Tokenizer \<times> Statement) limited" where
  "parse_statement_loop_limited limit depth 0 prev_token_is_known tk ret = None"
| "parse_statement_loop_limited limit depth (Suc fuel) prev_token_is_known tk ret =
    then_do_limited (get_next_standard_token_limited limit (depth + 1) fuel tk ret)
      (\<lambda>token (tk, ret).
        case parse_statement_try_limited limit depth fuel token tk ret of
          None \<Rightarrow> None
        | Some (Inr True, tk, ret) \<Rightarrow> Some (Inr ret, tk, ret)
        | Some (Inr False, tk, ret) \<Rightarrow> parse_statement_loop_limited limit depth fuel True tk ret
        | Some (Inl (Raised UnknownTokenException), tk, ret) \<Rightarrow>
            (let tk = snd (consume tk) in
             if prev_token_is_known then
               parse_statement_loop_limited limit depth fuel False tk
                 (ret\<lparr>unknowns := unknowns ret @
                    [\<lparr>us_start = start token, us_length = tlength token, first_token = token\<rparr>]\<rparr>)
             else if unknowns ret = [] then Some (Inl (Raised IndexError), tk, ret)
             else
               parse_statement_loop_limited limit depth fuel False tk
                 (ret\<lparr>unknowns := butlast (unknowns ret) @
                    [(last (unknowns ret))
                       \<lparr>us_length := start token + tlength token - us_start (last (unknowns ret))\<rparr>]\<rparr>))
        | Some (Inl e, s) \<Rightarrow> Some (Inl e, s))"

definition parse_statement_limited ::
  "nat \<Rightarrow> nat \<Rightarrow> nat \<Rightarrow> Tokenizer \<Rightarrow> (Statement, Tokenizer) limited" where
  "parse_statement_limited limit depth fuel tk =
    call limit depth tk
      (let (token, tk) = peek 1 tk;
           ret = Statement_init (start token) (tlength token)
       in map_option (\<lambda>(r, tk, ret). (r, tk))
            (parse_statement_loop_limited limit depth fuel True tk ret))"

fun parse_all_loop_limited ::
  "nat \<Rightarrow> nat \<Rightarrow> nat \<Rightarrow> Statement list \<Rightarrow> Tokenizer \<Rightarrow> (Statement list, Tokenizer) limited" where
  "parse_all_loop_limited limit depth 0 ret tk = None"
| "parse_all_loop_limited limit depth (Suc fuel) ret tk =
    then_do_limited (consume_newline_semicolons_limited limit (depth + 1) fuel tk)
      (\<lambda>token tk.
        if is_special END_OF_STRING token then Some (Inr ret, tk)
        else then_do_limited (parse_statement_limited limit (depth + 1) fuel tk)
               (\<lambda>statement tk. parse_all_loop_limited limit depth fuel (ret @ [statement]) tk))"

definition parse_all_limited ::
  "nat \<Rightarrow> nat \<Rightarrow> nat \<Rightarrow> Tokenizer \<Rightarrow> (Statement list, Tokenizer) limited" where
  "parse_all_limited limit depth fuel tk =
    call limit depth tk (parse_all_loop_limited limit depth fuel [] tk)"

text \<open>\<^verbatim>\<open>Parser(text).parse_all()\<close> where the interpreter allows \<open>limit\<close> nested calls.\<close>

definition parseAll_limited :: "nat \<Rightarrow> string \<Rightarrow> (raised + Statement list) option" where
  "parseAll_limited limit s =
    map_option fst (parse_all_limited limit 1 (parse_fuel s) (Tokenizer_init s 0))"

subsection \<open>A limit above the fuel is never reached\<close>

lemma call_within: "depth \<le> limit \<Longrightarrow> call limit depth s m = m"
  by (simp add: call_def)

lemma call_beyond: "limit < depth \<Longrightarrow> call limit depth s m = Some (Inl RecursionError, s)"
  by (simp add: call_def)

lemma unlimited_simps [simp]:
  "unlimited None = None"
  "unlimited (Some (Inr a, s)) = Some (Inr a, s)"
  "unlimited (Some (Inl e, s)) = Some (Inl (Raised e), s)"
  by (simp_all add: unlimited_def)

lemma unlimited_then_do:
  "(\<And>a s. m = Some (Inr a, s) \<Longrightarrow> f' a s = unlimited (f a s))
    \<Longrightarrow> then_do_limited (unlimited m) f' = unlimited (then_do m f)"
  by (cases m) (auto simp: then_do_limited_def then_do_def split: sum.splits)

lemma unlimited_handler:
  "(case unlimited m of
      Some (Inl (Raised UnknownTokenException), s) \<Rightarrow> Some (Inr (PlaceholderExpression ''1''), s)
    | r \<Rightarrow> r)
   = unlimited (case m of
      Some (Inl UnknownTokenException, s) \<Rightarrow> Some (Inr (PlaceholderExpression ''1''), s)
    | r \<Rightarrow> r)"
  by (cases m) (auto split: sum.splits exception.splits)

lemma get_next_standard_token_unlimited:
  "depth \<le> limit \<Longrightarrow> get_next_standard_token_limited limit depth fuel tk ps
     = unlimited (get_next_standard_token fuel tk ps)"
  by (simp add: get_next_standard_token_limited_def call_within)

lemma consume_newline_semicolons_unlimited:
  "depth \<le> limit \<Longrightarrow> consume_newline_semicolons_limited limit depth fuel tk
     = unlimited (consume_newline_semicolons fuel tk)"
  by (simp add: consume_newline_semicolons_limited_def call_within)

lemma expression_unlimited:
  "(\<forall>depth c tk ps. depth + fuel \<le> limit \<longrightarrow>
      parse_expression_limited limit depth fuel c tk ps = unlimited (parse_expression fuel c tk ps))
 \<and> (\<forall>depth c e tk ps. depth + fuel \<le> limit \<longrightarrow>
      parse_expression_loop_limited limit depth fuel c e tk ps
        = unlimited (parse_expression_loop fuel c e tk ps))
 \<and> (\<forall>depth tk ps. depth + fuel \<le> limit \<longrightarrow>
      parse_non_binary_expression_limited limit depth fuel tk ps
        = unlimited (parse_non_binary_expression fuel tk ps))
 \<and> (\<forall>depth token tk ps. depth + fuel \<le> limit \<longrightarrow>
      parse_non_binary_expression_loop_limited limit depth fuel token tk ps
        = unlimited (parse_non_binary_expression_loop fuel token tk ps))"
proof (induction fuel)
  case 0
  show ?case by (simp add: call_within)
next
  case (Suc n)
  note pe = Suc.IH[THEN conjunct1, rule_format]
  note pl = Suc.IH[THEN conjunct2, THEN conjunct1, rule_format]
  note pn = Suc.IH[THEN conjunct2, THEN conjunct2, THEN conjunct1, rule_format]
  note pnl = Suc.IH[THEN conjunct2, THEN conjunct2, THEN conjunct2, rule_format]
  have 1: "parse_expression_limited limit depth (Suc n) c tk ps
             = unlimited (parse_expression (Suc n) c tk ps)"
    if b: "depth + Suc n \<le> limit" for depth c tk ps
  proof -
    have d: "depth \<le> limit" "Suc depth + n \<le> limit" "depth + n \<le> limit" using b by simp_all
    show ?thesis
      apply (simp add: call_within[OF d(1)] pn[OF d(2)])
      apply (rule unlimited_then_do)
      apply (simp add: pl[OF d(3)] split: prod.splits)
      done
  qed
  have 2: "parse_expression_loop_limited limit depth (Suc n) c e tk ps
             = unlimited (parse_expression_loop (Suc n) c e tk ps)"
    if b: "depth + Suc n \<le> limit" for depth c e tk ps
  proof -
    have d: "Suc depth \<le> limit" "Suc depth + n \<le> limit" "depth + n \<le> limit" using b by simp_all
    show ?thesis
      apply (simp add: get_next_standard_token_unlimited[OF d(1)] del: parse_expression.simps)
      apply (rule unlimited_then_do)
      apply (auto simp: pe[OF d(2)] pl[OF d(3)] Let_def split: prod.splits option.splits
          simp del: parse_expression.simps intro!: unlimited_then_do)
      done
  qed
  have 3: "parse_non_binary_expression_limited limit depth (Suc n) tk ps
             = unlimited (parse_non_binary_expression (Suc n) tk ps)"
    if b: "depth + Suc n \<le> limit" for depth tk ps
  proof -
    have d: "depth \<le> limit" "Suc depth \<le> limit" "depth + n \<le> limit" using b by simp_all
    show ?thesis
      apply (simp add: call_within[OF d(1)] get_next_standard_token_unlimited[OF d(2)])
      apply (rule unlimited_then_do)
      apply (simp add: pnl[OF d(3)] unlimited_handler split: prod.splits)
      done
  qed
  have 4: "parse_non_binary_expression_loop_limited limit depth (Suc n) token tk ps
             = unlimited (parse_non_binary_expression_loop (Suc n) token tk ps)"
    if b: "depth + Suc n \<le> limit" for depth token tk ps
  proof -
    have d: "Suc depth \<le> limit" "Suc depth + n \<le> limit" "depth + n \<le> limit" using b by simp_all
    show ?thesis
      apply (auto simp: pe[OF d(2)] pnl[OF d(3)] get_next_standard_token_unlimited[OF d(1)]
          split: Token.splits prod.splits simp del: parse_expression.simps
          intro!: unlimited_then_do)
      done
  qed
  show ?case using 1 2 3 4 by blast
qed

lemmas parse_expression_unlimited = expression_unlimited[THEN conjunct1, rule_format]

lemma then_do_limited_value: "then_do_limited (Some (Inr a, s)) f = f a s"
  by (simp add: then_do_limited_def)

lemma then_do_value: "then_do (Some (Inr a, s)) f = f a s"
  by (simp add: then_do_def)

lemma parse_alias_unlimited:
  "Suc depth \<le> limit \<Longrightarrow> parse_alias_limited limit depth fuel tk ps = unlimited (parse_alias fuel tk ps)"
  unfolding parse_alias_limited_def parse_alias_def
  by (auto simp: get_next_standard_token_unlimited then_do_limited_value then_do_value
      split: prod.splits intro!: unlimited_then_do)

lemma parse_select_loop_unlimited:
  "Suc depth + fuel \<le> limit \<Longrightarrow> parse_select_loop_limited limit depth fuel ret tk ps
     = unlimited (parse_select_loop fuel ret tk ps)"
proof (induction fuel arbitrary: ret tk ps)
  case 0
  show ?case by simp
next
  case (Suc n)
  have d: "Suc depth + n \<le> limit" "Suc depth \<le> limit" using Suc.prems by simp_all
  show ?case
    by (auto simp: Suc.IH[OF d(1)] parse_expression_unlimited[OF d(1)] parse_alias_unlimited[OF d(2)]
        Let_def split: prod.splits simp del: parse_expression.simps parse_expression_limited.simps
        intro!: unlimited_then_do)
qed

lemma parse_select_unlimited:
  "depth + fuel < limit \<Longrightarrow> parse_select_limited limit depth fuel tk ps
     = unlimited (parse_select fuel tk ps)"
  by (simp add: parse_select_limited_def parse_select_def call_within parse_select_loop_unlimited)

lemma parse_from_loop_unlimited:
  "Suc depth + fuel \<le> limit \<Longrightarrow> parse_from_loop_limited limit depth fuel ret tk ps
     = unlimited (parse_from_loop fuel ret tk ps)"
proof (induction fuel arbitrary: ret tk ps)
  case 0
  show ?case by simp
next
  case (Suc n)
  have d: "Suc depth + n \<le> limit" "Suc depth \<le> limit" using Suc.prems by simp_all
  show ?case
    by (auto simp: Suc.IH[OF d(1)] parse_expression_unlimited[OF d(1)] parse_alias_unlimited[OF d(2)]
        Let_def split: prod.splits simp del: parse_expression.simps parse_expression_limited.simps
        intro!: unlimited_then_do)
qed

lemma parse_from_unlimited:
  "depth + fuel < limit \<Longrightarrow> parse_from_limited limit depth fuel tk ps
     = unlimited (parse_from fuel tk ps)"
  by (simp add: parse_from_limited_def parse_from_def call_within parse_from_loop_unlimited)

lemma parse_where_unlimited:
  "depth + fuel < limit \<Longrightarrow> parse_where_limited limit depth fuel tk ps
     = unlimited (parse_where fuel tk ps)"
  unfolding parse_where_limited_def parse_where_def
  by (auto simp: call_within parse_expression_unlimited
      simp del: parse_expression.simps parse_expression_limited.simps intro!: unlimited_then_do)

lemma parse_statement_try_unlimited:
  "Suc depth + fuel < limit \<Longrightarrow> parse_statement_try_limited limit depth fuel token tk ps
     = unlimited (parse_statement_try fuel token tk ps)"
  unfolding parse_statement_try_limited_def parse_statement_try_def
  by (auto simp: parse_select_unlimited parse_from_unlimited parse_where_unlimited
      split: Token.splits prod.splits intro!: unlimited_then_do)

lemma parse_statement_loop_unlimited:
  "Suc depth + fuel \<le> limit \<Longrightarrow> parse_statement_loop_limited limit depth fuel prev tk ret
     = unlimited (parse_statement_loop fuel prev tk ret)"
proof (induction fuel arbitrary: prev tk ret)
  case 0
  show ?case by simp
next
  case (Suc n)
  have d: "Suc depth + n \<le> limit" "Suc depth \<le> limit" "Suc depth + n < limit"
    using Suc.prems by simp_all
  have body: "(case unlimited (parse_statement_try n token tk1 ret1) of
          None \<Rightarrow> None
        | Some (Inr True, tk, ret) \<Rightarrow> Some (Inr ret, tk, ret)
        | Some (Inr False, tk, ret) \<Rightarrow> parse_statement_loop_limited limit depth n True tk ret
        | Some (Inl (Raised UnknownTokenException), tk, ret) \<Rightarrow>
            (let tk = snd (consume tk) in
             if prev then
               parse_statement_loop_limited limit depth n False tk
                 (ret\<lparr>unknowns := unknowns ret @
                    [\<lparr>us_start = start token, us_length = tlength token, first_token = token\<rparr>]\<rparr>)
             else if unknowns ret = [] then Some (Inl (Raised IndexError), tk, ret)
             else
               parse_statement_loop_limited limit depth n False tk
                 (ret\<lparr>unknowns := butlast (unknowns ret) @
                    [(last (unknowns ret))
                       \<lparr>us_length := start token + tlength token - us_start (last (unknowns ret))\<rparr>]\<rparr>))
        | Some (Inl e, s) \<Rightarrow> Some (Inl e, s))
      = unlimited (case parse_statement_try n token tk1 ret1 of
          None \<Rightarrow> None
        | Some (Inr True, tk, ret) \<Rightarrow> Some (Inr ret, tk, ret)
        | Some (Inr False, tk, ret) \<Rightarrow> parse_statement_loop n True tk ret
        | Some (Inl UnknownTokenException, tk, ret) \<Rightarrow>
            (let tk = snd (consume tk) in
             if prev then
               parse_statement_loop n False tk
                 (ret\<lparr>unknowns := unknowns ret @
                    [\<lparr>us_start = start token, us_length = tlength token, first_token = token\<rparr>]\<rparr>)
             else if unknowns ret = [] then Some (Inl IndexError, tk, ret)
             else
               parse_statement_loop n False tk
                 (ret\<lparr>unknowns := butlast (unknowns ret) @
                    [(last (unknowns ret))
                       \<lparr>us_length := start token + tlength token - us_start (last (unknowns ret))\<rparr>]\<rparr>))
        | Some (Inl e, s) \<Rightarrow> Some (Inl e, s))" for token tk1 ret1
    by (cases "parse_statement_try n token tk1 ret1")
       (auto simp: Suc.IH[OF d(1)] Let_def split: sum.splits exception.splits bool.splits)
  show ?case
    apply (simp add: get_next_standard_token_unlimited[OF d(2)]
        parse_statement_try_unlimited[OF d(3)])
    apply (rule unlimited_then_do)
    apply (simp add: body split: prod.splits)
    done
qed

lemma unlimited_map_option:
  "map_option (\<lambda>(r, tk, ret). (r, tk)) (unlimited m)
     = unlimited (map_option (\<lambda>(r, tk, ret). (r, tk)) m)"
  by (cases m) (auto simp: unlimited_def)

lemma parse_statement_unlimited:
  "depth + fuel < limit \<Longrightarrow> parse_statement_limited limit depth fuel tk
     = unlimited (parse_statement fuel tk)"
  by (simp add: parse_statement_limited_def parse_statement_def call_within
      parse_statement_loop_unlimited unlimited_map_option Let_def split: prod.splits)

lemma parse_all_loop_unlimited:
  "Suc depth + fuel \<le> limit \<Longrightarrow> parse_all_loop_limited limit depth fuel ret tk
     = unlimited (parse_all_loop fuel ret tk)"
proof (induction fuel arbitrary: ret tk)
  case 0
  show ?case by simp
next
  case (Suc n)
  have d: "Suc depth + n \<le> limit" "Suc depth \<le> limit" "Suc depth + n < limit"
    using Suc.prems by simp_all
  show ?case
    by (auto simp: Suc.IH[OF d(1)] consume_newline_semicolons_unlimited[OF d(2)]
        parse_statement_unlimited[OF d(3)] intro!: unlimited_then_do)
qed

lemma parse_all_unlimited:
  "depth + fuel < limit \<Longrightarrow> parse_all_limited limit depth fuel tk = unlimited (parse_all fuel tk)"
  by (simp add: parse_all_limited_def parse_all_def call_within parse_all_loop_unlimited)

lemma parseAll_unlimited:
  "Suc (parse_fuel s) < limit \<Longrightarrow> parseAll_limited limit s
     = map_option (\<lambda>r. case r of Inl e \<Rightarrow> Inl (Raised e) | Inr a \<Rightarrow> Inr a) (parseAll s)"
  by (cases "parse_all (parse_fuel s) (Tokenizer_init s 0)")
     (auto simp: parseAll_limited_def parseAll_def parse_all_unlimited unlimited_def)

subsection \<open>A text that reaches every limit\<close>

text \<open>\<^verbatim>\<open>"select" + "(" * n\<close>\<close>

definition open_parentheses :: "nat \<Rightarrow> string" where
  "open_parentheses n = ''select'' @ replicate n CHR ''(''"

lemma open_parentheses_length: "length (open_parentheses n) = 6 + n"
  by (simp add: open_parentheses_def)

lemma open_parentheses_nth:
  "k < n \<Longrightarrow> open_parentheses n ! (6 + k) = CHR ''(''"
  by (simp add: open_parentheses_def nth_append)

lemma scan_while_stop:
  "length s \<le> i \<or> \<not> p (s ! i) \<Longrightarrow> scan_while p s i = i"
  by (subst scan_while.simps) auto

lemma scan_while_prefix:
  assumes "\<forall>c \<in> set (drop i xs). p c" and "ys = [] \<or> \<not> p (hd ys)" and "i \<le> length xs"
  shows "scan_while p (xs @ ys) i = length xs"
  using assms
proof (induction "length xs - i" arbitrary: i)
  case 0
  then have i: "i = length xs" by simp
  have "length (xs @ ys) \<le> i \<or> \<not> p ((xs @ ys) ! i)"
    using "0.prems"(2) by (cases ys) (simp_all add: i)
  then show ?case using i by (simp add: scan_while_stop)
next
  case (Suc m)
  then have lt: "i < length xs" by simp
  then have "xs ! i \<in> set (drop i xs)" by (metis Cons_nth_drop_Suc list.set_intros(1))
  then have pi: "p ((xs @ ys) ! i)" using Suc.prems(1) lt by (simp add: nth_append)
  have "\<forall>c \<in> set (drop (Suc i) xs). p c"
    using Suc.prems(1) by (metis Cons_nth_drop_Suc lt list.set_intros(2))
  moreover have "m = length xs - Suc i" using Suc.hyps(2) by simp
  ultimately have "scan_while p (xs @ ys) (Suc i) = length xs"
    using Suc.hyps(1)[of "Suc i"] Suc.prems(2) lt by simp
  then show ?case using pi lt by (subst scan_while.simps) simp
qed

lemma open_parentheses_select:
  "search_next (open_parentheses n) 0 = (NameToken 0 6 SELECT, 6)"
proof -
  let ?s = "open_parentheses n"
  have len: "?s \<noteq> []" by (simp add: open_parentheses_def)
  have w: "scan_while (\<lambda>c. isspace c \<and> c \<noteq> CHR 0x0A) ?s 0 = 0"
    by (rule scan_while_stop) (simp add: open_parentheses_def isspace_def)
  have "scan_while (\<lambda>c. isalnum c \<or> c = CHR ''_'') (''select'' @ replicate n CHR ''('') (Suc 0)
          = length ''select''"
    by (rule scan_while_prefix) (auto simp: isalnum_def isalpha_def hd_replicate)
  then have a: "scan_while (\<lambda>c. isalnum c \<or> c = CHR ''_'') ?s (Suc 0) = 6"
    by (simp add: open_parentheses_def)
  have s: "map lower (slice ?s 0 6) = ''select''"
    by (simp add: slice_def open_parentheses_def lower_def)
  have alpha: "isalpha (?s ! 0)" by (simp add: open_parentheses_def isalpha_def)
  have kw: "map_of text_to_name_token ''select'' = Some SELECT"
    by (simp add: text_to_name_token_def)
  show ?thesis
    unfolding search_next_def w Let_def
    using len by (simp add: alpha a s kw)
qed

lemma open_parentheses_parenthesis:
  assumes "k < n"
  shows "search_next (open_parentheses n) (6 + k)
           = (PunctuationToken (6 + int k) 1 LEFT_PAREN, 7 + k)"
proof -
  note c = open_parentheses_nth[OF assms]
  have w: "scan_while (\<lambda>c. isspace c \<and> c \<noteq> CHR 0x0A) (open_parentheses n) (6 + k) = 6 + k"
    by (subst scan_while.simps) (simp add: c isspace_def)
  have two: "slice (open_parentheses n) (6 + k) (6 + k + 2) \<noteq> ''--''"
            "slice (open_parentheses n) (6 + k) (6 + k + 2) \<noteq> ''/*''"
    using assms c
    by (auto simp: slice_def open_parentheses_length hd_drop_conv_nth
        dest!: arg_cong[where f = hd])
  show ?thesis
    unfolding search_next_def w Let_def
    using assms two
    by (simp add: open_parentheses_length c isalpha_def is_ascii_digit_def
        text_to_non_operators_def)
qed

text \<open>The tokenizer after \<^verbatim>\<open>select\<close> and \<open>k\<close> parentheses have been consumed.\<close>

definition after_parentheses :: "nat \<Rightarrow> nat \<Rightarrow> Tokenizer" where
  "after_parentheses n k =
    \<lparr>tk_text = open_parentheses n, start_position = 6 + k, peek_queue = [],
     end_idx_of_last_consumed_token = 6 + int k\<rparr>"

lemma peek_parenthesis:
  assumes "k < n"
  shows "peek (Suc 0) (after_parentheses n k)
           = (PunctuationToken (6 + int k) 1 LEFT_PAREN,
              (after_parentheses n k)\<lparr>peek_queue := [PunctuationToken (6 + int k) 1 LEFT_PAREN]\<rparr>)"
proof -
  have "peek_loop (open_parentheses n) (Suc 0) [] (6 + k) = [PunctuationToken (6 + int k) 1 LEFT_PAREN]"
    apply (subst peek_loop.simps)
    apply (simp add: open_parentheses_parenthesis[OF assms])
    apply (subst peek_loop.simps)
    apply simp
    done
  then show ?thesis by (simp add: peek_def after_parentheses_def)
qed

lemma get_next_standard_token_parenthesis:
  assumes "k < n"
  shows "get_next_standard_token (Suc fuel) (after_parentheses n k) ps
           = Some (Inr (PunctuationToken (6 + int k) 1 LEFT_PAREN),
                   (after_parentheses n k)\<lparr>peek_queue := [PunctuationToken (6 + int k) 1 LEFT_PAREN]\<rparr>,
                   ps)"
  by (simp add: get_next_standard_token_def peek_parenthesis[OF assms] is_punctuation_def
      is_comment_def is_special_def)

lemma consume_parenthesis:
  "consume ((after_parentheses n k)\<lparr>peek_queue := [PunctuationToken (6 + int k) 1 LEFT_PAREN]\<rparr>)
     = (PunctuationToken (6 + int k) 1 LEFT_PAREN, after_parentheses n (Suc k))"
  by (simp add: consume_def after_parentheses_def)

text \<open>A \<^verbatim>\<open>RecursionError\<close> leaves every method it passes through.\<close>

definition overflows :: "('a, 's) limited \<Rightarrow> bool" where
  "overflows m = (\<exists>s. m = Some (Inl RecursionError, s))"

lemma overflows_call: "limit < depth \<or> overflows m \<Longrightarrow> overflows (call limit depth s m)"
  by (auto simp: overflows_def call_def)

lemma overflows_then_do: "overflows m \<Longrightarrow> overflows (then_do_limited m f)"
  by (auto simp: overflows_def then_do_limited_def)

lemma overflows_next:
  "m = Some (Inr a, s) \<Longrightarrow> overflows (f a s) \<Longrightarrow> overflows (then_do_limited m f)"
  by (auto simp: overflows_def then_do_limited_def)

lemma parse_expression_limited_beyond:
  "limit < depth \<Longrightarrow> overflows (parse_expression_limited limit depth fuel c tk ps)"
  by (cases fuel) (simp_all add: overflows_call)

lemma get_next_standard_token_limited_beyond:
  "limit < depth \<Longrightarrow> overflows (get_next_standard_token_limited limit depth fuel tk ps)"
  by (simp add: get_next_standard_token_limited_def overflows_call)

lemma parse_expression_overflows:
  "overflows (parse_non_binary_expression_limited limit (Suc depth) fuel tk ps)
    \<Longrightarrow> overflows (parse_expression_limited limit depth (Suc fuel) c tk ps)"
  by (simp add: overflows_call overflows_then_do del: parse_non_binary_expression_limited.simps)

lemma parse_non_binary_expression_overflows:
  assumes "limit < Suc depth \<or>
      get_next_standard_token_limited limit (Suc depth) (Suc fuel) tk ps
        = Some (Inr (PunctuationToken a b LEFT_PAREN), tk', ps')
      \<and> overflows (parse_expression_limited limit (Suc depth) fuel comma_precedence
                      (snd (consume tk')) ps')"
  shows "overflows (parse_non_binary_expression_limited limit depth (Suc (Suc fuel)) tk ps)"
proof (cases "limit < Suc depth")
  case True
  then have "overflows (get_next_standard_token_limited limit (Suc depth) (Suc fuel) tk ps)"
    by (rule get_next_standard_token_limited_beyond)
  then show ?thesis
    by (simp add: overflows_call overflows_then_do del: parse_non_binary_expression_loop_limited.simps)
next
  case False
  with assms have g: "get_next_standard_token_limited limit (Suc depth) (Suc fuel) tk ps
        = Some (Inr (PunctuationToken a b LEFT_PAREN), tk', ps')"
    and o: "overflows (parse_expression_limited limit (Suc depth) fuel comma_precedence
                      (snd (consume tk')) ps')"
    by simp_all
  from o obtain st where
    "parse_expression_limited limit (Suc depth) fuel comma_precedence (snd (consume tk')) ps'
       = Some (Inl RecursionError, st)"
    by (auto simp: overflows_def)
  then have "parse_non_binary_expression_loop_limited limit depth (Suc fuel)
               (PunctuationToken a b LEFT_PAREN) tk' ps' = Some (Inl RecursionError, st)"
    by (simp add: then_do_limited_def del: parse_expression_limited.simps comma_precedence_100)
  then show ?thesis
    using g
    by (simp add: overflows_def call_def then_do_limited_def
        del: parse_non_binary_expression_loop_limited.simps)
qed

lemma parse_expression_overflow:
  "limit < depth + 2 * (n - k) \<Longrightarrow> 3 * (n - k) < fuel
    \<Longrightarrow> overflows (parse_expression_limited limit depth fuel c (after_parentheses n k) ps)"
proof (induction "n - k" arbitrary: k depth fuel c ps)
  case 0
  then have "limit < depth" by simp
  then show ?case by (rule parse_expression_limited_beyond)
next
  case (Suc m)
  let ?tk = "after_parentheses n k"
  let ?paren = "PunctuationToken (6 + int k) 1 LEFT_PAREN"
  have kn: "k < n" using Suc.hyps(2) by simp
  obtain f3 where fuel: "fuel = Suc (Suc (Suc f3))" and f3: "3 * (n - Suc k) < f3"
    using Suc.prems(2) kn by (cases fuel; cases "fuel - 1"; cases "fuel - 2") auto
  have "limit < Suc (Suc depth) \<or>
      get_next_standard_token_limited limit (Suc (Suc depth)) (Suc f3) ?tk ps
        = Some (Inr ?paren, ?tk\<lparr>peek_queue := [?paren]\<rparr>, ps)
      \<and> overflows (parse_expression_limited limit (Suc (Suc depth)) f3 comma_precedence
                      (snd (consume (?tk\<lparr>peek_queue := [?paren]\<rparr>))) ps)"
  proof (cases "limit < Suc (Suc depth)")
    case True
    then show ?thesis by simp
  next
    case False
    then have g: "get_next_standard_token_limited limit (Suc (Suc depth)) (Suc f3) ?tk ps
                   = Some (Inr ?paren, ?tk\<lparr>peek_queue := [?paren]\<rparr>, ps)"
      by (simp add: get_next_standard_token_unlimited get_next_standard_token_parenthesis[OF kn])
    have "m = n - Suc k" using Suc.hyps(2) by simp
    moreover have "limit < Suc (Suc depth) + 2 * (n - Suc k)" using Suc.prems(1) kn by simp
    ultimately have "overflows (parse_expression_limited limit (Suc (Suc depth)) f3
                       comma_precedence (after_parentheses n (Suc k)) ps)"
      using f3 by (rule Suc.hyps(1))
    with g show ?thesis by (simp only: consume_parenthesis snd_conv simp_thms)
  qed
  then have "overflows (parse_non_binary_expression_limited limit (Suc depth) (Suc (Suc f3)) ?tk ps)"
    by (rule parse_non_binary_expression_overflows)
  then show ?case unfolding fuel by (rule parse_expression_overflows)
qed

text \<open>The tokenizer at the start of the text, once \<^verbatim>\<open>select\<close> has been peeked.\<close>

definition select_peeked :: "nat \<Rightarrow> Tokenizer" where
  "select_peeked n = (Tokenizer_init (open_parentheses n) 0)\<lparr>peek_queue := [NameToken 0 6 SELECT]\<rparr>"

lemma peek_select:
  "peek (Suc 0) (Tokenizer_init (open_parentheses n) 0) = (NameToken 0 6 SELECT, select_peeked n)"
proof -
  have "peek_loop (open_parentheses n) (Suc 0) [] 0 = [NameToken 0 6 SELECT]"
    apply (subst peek_loop.simps)
    apply (simp add: open_parentheses_select)
    apply (subst peek_loop.simps)
    apply simp
    done
  then show ?thesis by (simp add: peek_def Tokenizer_init_def select_peeked_def)
qed

lemma peek_select_peeked:
  "peek (Suc 0) (select_peeked n) = (NameToken 0 6 SELECT, select_peeked n)"
proof -
  have "peek_loop (open_parentheses n) (Suc 0) [NameToken 0 6 SELECT] 6 = [NameToken 0 6 SELECT]"
    by (subst peek_loop.simps) simp
  then show ?thesis by (simp add: peek_def Tokenizer_init_def select_peeked_def)
qed

lemma consume_select: "consume (select_peeked n) = (NameToken 0 6 SELECT, after_parentheses n 0)"
  by (simp add: consume_def select_peeked_def Tokenizer_init_def after_parentheses_def)

lemma consume_newline_semicolons_select:
  "consume_newline_semicolons (Suc fuel) (Tokenizer_init (open_parentheses n) 0)
     = Some (Inr (NameToken 0 6 SELECT), select_peeked n)"
  by (simp add: consume_newline_semicolons_def peek_select is_punctuation_def)

lemma get_next_standard_token_select:
  "get_next_standard_token (Suc fuel) (select_peeked n) ps
     = Some (Inr (NameToken 0 6 SELECT), select_peeked n, ps)"
  by (simp add: get_next_standard_token_def peek_select_peeked is_punctuation_def
      is_comment_def is_special_def)

lemma parse_select_overflow:
  assumes "limit < Suc depth + 2 * n" and "3 * n < fuel"
  shows "overflows (parse_select_limited limit depth (Suc fuel) (select_peeked n) ps)"
proof -
  have "overflows (parse_expression_limited limit (depth + 1) fuel (comma_precedence - 1)
                     (after_parentheses n 0) ps)"
    using assms by (intro parse_expression_overflow) simp_all
  then have "overflows (parse_select_loop_limited limit depth (Suc fuel) (SelectClause [])
                          (snd (consume (select_peeked n))) ps)"
    unfolding consume_select snd_conv parse_select_loop_limited.simps
    by (rule overflows_then_do)
  then show ?thesis
    unfolding parse_select_limited_def by (intro overflows_call disjI2)
qed

lemma overflows_map_option:
  "overflows m \<Longrightarrow> overflows (map_option (\<lambda>(r, tk, ret). (r, tk)) m)"
  by (auto simp: overflows_def)

lemma parse_statement_loop_overflow:
  assumes "limit < Suc (Suc depth) + 2 * n" and "3 * n < fuel"
  shows "overflows (parse_statement_loop_limited limit depth (Suc (Suc fuel)) True
                      (select_peeked n) ret)"
proof (cases "limit < Suc depth")
  case True
  then have "overflows (get_next_standard_token_limited limit (depth + 1) (Suc fuel)
                          (select_peeked n) ret)"
    by (intro get_next_standard_token_limited_beyond) simp
  then show ?thesis
    unfolding parse_statement_loop_limited.simps by (rule overflows_then_do)
next
  case False
  then have g: "get_next_standard_token_limited limit (depth + 1) (Suc fuel) (select_peeked n) ret
                  = Some (Inr (NameToken 0 6 SELECT), select_peeked n, ret)"
    by (simp add: get_next_standard_token_unlimited get_next_standard_token_select)
  have "overflows (parse_select_limited limit (depth + 1) (Suc fuel) (select_peeked n) ret)"
    using assms by (intro parse_select_overflow) simp_all
  then obtain st where
    "parse_select_limited limit (depth + 1) (Suc fuel) (select_peeked n) ret
       = Some (Inl RecursionError, st)"
    by (auto simp: overflows_def)
  then have t: "parse_statement_try_limited limit depth (Suc fuel) (NameToken 0 6 SELECT)
                  (select_peeked n) ret = Some (Inl RecursionError, st)"
    by (simp add: parse_statement_try_limited_def then_do_limited_def)
  show ?thesis
    unfolding parse_statement_loop_limited.simps
    by (rule overflows_next[OF g]) (simp add: t overflows_def)
qed

lemma parse_statement_overflow:
  assumes "limit < Suc (Suc depth) + 2 * n" and "3 * n < fuel"
  shows "overflows (parse_statement_limited limit depth (Suc (Suc fuel)) (select_peeked n))"
proof -
  have "overflows (parse_statement_loop_limited limit depth (Suc (Suc fuel)) True (select_peeked n)
                     (Statement_init 0 6))"
    using assms by (rule parse_statement_loop_overflow)
  then have "overflows (map_option (\<lambda>(r, tk, ret). (r, tk))
               (parse_statement_loop_limited limit depth (Suc (Suc fuel)) True (select_peeked n)
                  (Statement_init 0 6)))"
    by (rule overflows_map_option)
  then show ?thesis
    unfolding parse_statement_limited_def
    by (intro overflows_call disjI2)
       (simp add: peek_select_peeked del: parse_statement_loop_limited.simps)
qed

lemma parse_all_overflow:
  assumes "limit < Suc (Suc (Suc depth)) + 2 * n" and "3 * n < fuel"
  shows "overflows (parse_all_limited limit depth (Suc (Suc (Suc fuel)))
                      (Tokenizer_init (open_parentheses n) 0))"
proof -
  let ?tk = "Tokenizer_init (open_parentheses n) 0"
  have "overflows (parse_all_loop_limited limit depth (Suc (Suc (Suc fuel))) [] ?tk)"
  proof (cases "limit < Suc depth")
    case True
    then have "overflows (consume_newline_semicolons_limited limit (depth + 1) (Suc (Suc fuel)) ?tk)"
      by (simp add: consume_newline_semicolons_limited_def overflows_call)
    then show ?thesis
      unfolding parse_all_loop_limited.simps by (rule overflows_then_do)
  next
    case False
    then have c: "consume_newline_semicolons_limited limit (depth + 1) (Suc (Suc fuel)) ?tk
                    = Some (Inr (NameToken 0 6 SELECT), select_peeked n)"
      by (simp add: consume_newline_semicolons_unlimited consume_newline_semicolons_select)
    have "overflows (parse_statement_limited limit (depth + 1) (Suc (Suc fuel)) (select_peeked n))"
      using assms by (intro parse_statement_overflow) simp_all
    then have "overflows (then_do_limited
        (parse_statement_limited limit (depth + 1) (Suc (Suc fuel)) (select_peeked n))
        (\<lambda>statement tk. parse_all_loop_limited limit depth (Suc (Suc fuel)) ([] @ [statement]) tk))"
      by (rule overflows_then_do)
    then show ?thesis
      unfolding parse_all_loop_limited.simps
      by (intro overflows_next[OF c]) (simp add: is_special_def)
  qed
  then show ?thesis
    unfolding parse_all_limited_def by (intro overflows_call disjI2)
qed

lemma parseAll_limited_overflow:
  assumes "limit < 2 * n + 4"
  shows "parseAll_limited limit (open_parentheses n) = Some (Inl RecursionError)"
proof -
  have "parse_fuel (open_parentheses n) = Suc (Suc (Suc (4 * n + 37)))"
    by (simp add: parse_fuel_def open_parentheses_length)
  moreover have "overflows (parse_all_limited limit 1 (Suc (Suc (Suc (4 * n + 37))))
                   (Tokenizer_init (open_parentheses n) 0))"
    using assms by (intro parse_all_overflow) simp_all
  ultimately show ?thesis
    by (auto simp: parseAll_limited_def overflows_def)
qed

text \<open>
  C1. \<^verbatim>\<open>parse_all\<close> does not return for every text. Whatever the number of nested calls the
  interpreter allows, \<^verbatim>\<open>select\<close> followed by that many opening parentheses raises
  \<^verbatim>\<open>RecursionError\<close>, and the error reaches the caller of \<^verbatim>\<open>parse_all\<close>: the parser recovers from
  every unknown token, but nothing bounds the depth at which \<^verbatim>\<open>parse_expression\<close> and
  \<^verbatim>\<open>parse_non_binary_expression\<close> call each other, once for each parenthesis. A text does
  return when the limit is at least four times its length plus 18: the statements are then
  those of the parser without a limit, their spans are in order and inside the text, they are
  laid out as \<open>text_layout\<close> says, and the unknown tokens of each are recorded as
  \<open>statement_layout\<close> says.
\<close>

theorem C1_recursion_limit:
  "parseAll_limited limit (''select'' @ replicate limit CHR ''('') = Some (Inl RecursionError)
   \<and> (\<exists>stmts. parseAll_limited (4 * length s + 18 + extra) s = Some (Inr stmts)
         \<and> parseAll s = Some (Inr stmts)
         \<and> spans_ordered 0 stmts (int (length s))
         \<and> text_layout s 0 stmts
         \<and> list_all (statement_layout s) stmts)"
proof
  have "parseAll_limited limit (open_parentheses limit) = Some (Inl RecursionError)"
    by (rule parseAll_limited_overflow) simp
  then show "parseAll_limited limit (''select'' @ replicate limit CHR ''('')
               = Some (Inl RecursionError)"
    by (simp only: open_parentheses_def)
next
  obtain stmts where r: "parseAll s = Some (Inr stmts)"
    and p: "spans_ordered 0 stmts (int (length s))" "text_layout s 0 stmts"
      "list_all (statement_layout s) stmts"
    using parseAll_total_spans[of s] by blast
  have "Suc (parse_fuel s) < 4 * length s + 18 + extra" by (simp add: parse_fuel_def)
  then have "parseAll_limited (4 * length s + 18 + extra) s = Some (Inr stmts)"
    by (simp add: parseAll_unlimited r)
  with r p show "\<exists>stmts. parseAll_limited (4 * length s + 18 + extra) s = Some (Inr stmts)
         \<and> parseAll s = Some (Inr stmts)
         \<and> spans_ordered 0 stmts (int (length s))
         \<and> text_layout s 0 stmts
         \<and> list_all (statement_layout s) stmts"
    by blast
qed

end
